theory Spec2Isabelle
  imports Main "HOL-Library.Word" "HOL-Library.Multiset" "HOL-Library.List_Lexorder"
begin

unbundle bit_operations_syntax

section \<open>vocab\_count.c: data model\<close>

text \<open>
  A C \<open>char\<close> is a byte. A \<open>char *\<close> argument is modelled by the bytes found at the
  pointer; the C string it denotes ends at the first NUL byte, or at the end of the list
  (where the terminating NUL sits). Whether plain \<open>char\<close> is signed is fixed by the
  platform, not by the source, so every function that promotes a \<open>char\<close> to \<open>int\<close>
  takes the signedness \<open>sg\<close> as a parameter.

  \<open>long long\<close> values are modelled as \<open>int\<close>. The only arithmetic on them is
  \<open>count++\<close>, \<open>++i\<close>, \<open>j++\<close> and the difference of two counts; lemma
  \<open>count_loop_counts_bounded\<close> below shows that every count lies between 1 and the number
  of tokens read, so no operation leaves the range of \<open>long long\<close> as long as fewer than
  \<open>2^63\<close> tokens are read. \<open>unsigned int\<close> has 32 bits.

  \<open>malloc\<close> and \<open>realloc\<close> are taken to succeed: the source does not test what they
  return.
\<close>

type_synonym cchar = "8 word"
type_synonym cstring = "cchar list"

definition MAX_STRING_LENGTH :: nat where
  "MAX_STRING_LENGTH = 1000"

definition TSIZE :: nat where
  "TSIZE = 1048576"

definition SEED :: "32 word" where
  "SEED = 1159241"

record VOCAB =
  word :: cstring
  vcount :: int

text \<open>The \<open>next\<close> pointer of a \<open>HASHREC\<close> is the tail of the list that models its chain.\<close>

record HASHREC =
  hword :: cstring
  hcount :: int

text \<open>Integer promotion of a \<open>char\<close>, and its conversion to \<open>unsigned int\<close>.\<close>

definition char_int :: "bool \<Rightarrow> cchar \<Rightarrow> int" where
  "char_int sg c = (if sg then sint c else uint c)"

definition char_uint :: "bool \<Rightarrow> cchar \<Rightarrow> 32 word" where
  "char_uint sg c = (if sg then scast c else ucast c)"

text \<open>\<open>*s\<close>: the byte at the pointer, the terminating NUL once the bytes are used up.\<close>

fun deref :: "cstring \<Rightarrow> cchar" where
  "deref [] = 0"
| "deref (c # s) = c"

text \<open>The bytes of the C string at a pointer: what \<open>strlen\<close> counts, \<open>strcpy\<close> copies
  and \<open>%s\<close> prints.\<close>

definition c_str :: "cstring \<Rightarrow> cstring" where
  "c_str s = takeWhile (\<lambda>c. c \<noteq> 0) s"

section \<open>String comparison and the two comparators\<close>

fun scmp :: "bool \<Rightarrow> cstring \<Rightarrow> cstring \<Rightarrow> int" where
  "scmp sg (c1 # s1) (c2 # s2) =
     (if c1 \<noteq> 0 \<and> c1 = c2 then scmp sg s1 s2 else char_int sg c1 - char_int sg c2)"
| "scmp sg (c1 # s1) [] = char_int sg c1 - char_int sg 0"
| "scmp sg [] s2 = char_int sg 0 - char_int sg (deref s2)"

definition CompareVocabTie :: "bool \<Rightarrow> VOCAB \<Rightarrow> VOCAB \<Rightarrow> int" where
  "CompareVocabTie sg a b =
     (let c = vcount b - vcount a
      in if c \<noteq> 0 then (if c > 0 then 1 else - 1) else scmp sg (word a) (word b))"

definition CompareVocab :: "VOCAB \<Rightarrow> VOCAB \<Rightarrow> int" where
  "CompareVocab a b =
     (let c = vcount b - vcount a
      in if c \<noteq> 0 then (if c > 0 then 1 else - 1) else 0)"

section \<open>The move-to-front hash table\<close>

fun bitwisehash_loop :: "bool \<Rightarrow> 32 word \<Rightarrow> cstring \<Rightarrow> 32 word" where
  "bitwisehash_loop sg h [] = h"
| "bitwisehash_loop sg h (c # w) =
     (if c = 0 then h
      else bitwisehash_loop sg (h XOR (push_bit 5 h + char_uint sg c + drop_bit 2 h)) w)"

definition bitwisehash :: "bool \<Rightarrow> cstring \<Rightarrow> nat \<Rightarrow> 32 word \<Rightarrow> 32 word" where
  "bitwisehash sg w tsize seed =
     (bitwisehash_loop sg seed w AND 0x7fffffff) mod (word_of_nat tsize)"

text \<open>The table is the array of \<open>TSIZE\<close> chain heads, indexed from 0.\<close>

type_synonym hashtable = "nat \<Rightarrow> HASHREC list"

definition inithashtable :: hashtable where
  "inithashtable = (\<lambda>i. [])"

text \<open>
  The \<open>for\<close> loop of \<open>hashinsert\<close> walks the chain while the record's word differs from
  \<open>w\<close>: \<open>prv\<close> are the records passed over (\<open>hprv\<close> is the last of them, \<open>NULL\<close> when
  there is none) and \<open>tmp\<close> is the chain from \<open>htmp\<close> on.
\<close>

definition hashinsert :: "bool \<Rightarrow> hashtable \<Rightarrow> cstring \<Rightarrow> hashtable" where
  "hashinsert sg ht w =
     (let hval = unat (bitwisehash sg w TSIZE SEED);
          prv = takeWhile (\<lambda>h. scmp sg (hword h) w \<noteq> 0) (ht hval);
          tmp = dropWhile (\<lambda>h. scmp sg (hword h) w \<noteq> 0) (ht hval)
      in case tmp of
           [] \<Rightarrow>
             (let htmp = \<lparr>hword = c_str w, hcount = 1\<rparr>
              in if prv = [] then ht(hval := [htmp]) else ht(hval := prv @ [htmp]))
         | htmp # nxt \<Rightarrow>
             (let htmp' = htmp\<lparr>hcount := hcount htmp + 1\<rparr>
              in if prv \<noteq> [] then ht(hval := htmp' # prv @ nxt)
                 else ht(hval := htmp' # nxt)))"

section \<open>The token source: \<open>fscanf\<close> with the format \<open>%1000s\<close>\<close>

text \<open>
  \<open>fscanf\<close> is the C library's. For the conversion \<open>%<width>s\<close> it skips white space,
  then stores the longest run of at most \<open>width\<close> bytes that are not white space; the
  first byte after the run stays unread. It returns \<open>EOF\<close> (here \<open>None\<close>) when the
  stream ends before a byte of the run is read.
\<close>

definition isspace :: "cchar \<Rightarrow> bool" where
  "isspace c = (c = 32 \<or> (9 \<le> c \<and> c \<le> 13))"

definition fscanf_s :: "nat \<Rightarrow> cchar list \<Rightarrow> (cstring \<times> cchar list) option" where
  "fscanf_s width fid =
     (let fid' = dropWhile isspace fid
      in if fid' = [] then None
         else (let str = take width (takeWhile (\<lambda>c. \<not> isspace c) fid')
               in Some (str, drop (length str) fid')))"

text \<open>What \<open>get_counts\<close> writes to the log, one constructor for each format string.\<close>

datatype logmsg =
    Building_vocabulary
  | Processed_tokens int
  | Progress_tokens int
  | Processed_total int
  | Counted_unique int
  | Truncating_min_count int
  | Truncating_size int
  | Using_size int

section \<open>\<open>get_counts\<close>\<close>

text \<open>The \<open>while\<close> loop that reads the corpus. Its state is the table, the token counter
  \<open>i\<close> and the log written so far; \<open>fid\<close> is what is left of the stream.\<close>

function count_loop ::
  "bool \<Rightarrow> int \<Rightarrow> hashtable \<times> int \<times> logmsg list \<Rightarrow> cchar list
     \<Rightarrow> hashtable \<times> int \<times> logmsg list" where
  "count_loop sg verbose (vocab_hash, i, lg) fid =
     (case fscanf_s MAX_STRING_LENGTH fid of
        None \<Rightarrow> (vocab_hash, i, lg)
      | Some (str, fid') \<Rightarrow>
          count_loop sg verbose
            (hashinsert sg vocab_hash str, i + 1,
             if (i + 1) mod 100000 = 0 \<and> verbose > 1 then lg @ [Progress_tokens (i + 1)]
             else lg)
            fid')"
  by pat_completeness auto
termination
proof (relation "measure (\<lambda>(sg, verbose, st, fid). length fid)")
  show "wf (measure (\<lambda>(sg, verbose, st, fid). length fid))" by simp
next
  fix sg :: bool and verbose :: int and vocab_hash :: hashtable and i :: int
    and lg :: "logmsg list" and fid :: "cchar list" and x2 str fid'
  assume a: "fscanf_s MAX_STRING_LENGTH fid = Some x2" and b: "(str, fid') = x2"
  let ?d = "dropWhile isspace fid"
  from a b have ne: "?d \<noteq> []"
    and s: "str = take MAX_STRING_LENGTH (takeWhile (\<lambda>c. \<not> isspace c) ?d)"
    and f: "fid' = drop (length str) ?d"
    unfolding fscanf_s_def Let_def
    by (auto split: if_splits simp del: dropWhile_eq_Nil_conv length_take)
  from ne have "\<not> isspace (hd ?d)" by (rule hd_dropWhile)
  with ne s have "str \<noteq> []" by (cases ?d) (auto simp: MAX_STRING_LENGTH_def)
  with ne f have "length fid' < length ?d" by (cases ?d) auto
  also have "length ?d \<le> length fid" by (rule length_dropWhile_le)
  finally show "((sg, verbose,
         (hashinsert sg vocab_hash str, i + 1,
          if (i + 1) mod 100000 = 0 \<and> verbose > 1 then lg @ [Progress_tokens (i + 1)]
          else lg),
         fid'),
        (sg, verbose, (vocab_hash, i, lg), fid))
       \<in> measure (\<lambda>(sg, verbose, st, fid). length fid)"
    by simp
qed

text \<open>The strings that the successive \<open>fscanf\<close> calls of that loop store in \<open>str\<close>.\<close>

function tokens :: "cchar list \<Rightarrow> cstring list" where
  "tokens fid =
     (case fscanf_s MAX_STRING_LENGTH fid of
        None \<Rightarrow> []
      | Some (str, fid') \<Rightarrow> str # tokens fid')"
  by pat_completeness auto
termination
proof (relation "measure length")
  show "wf (measure (length :: cchar list \<Rightarrow> nat))" by simp
next
  fix fid :: "cchar list" and x2 str fid'
  assume a: "fscanf_s MAX_STRING_LENGTH fid = Some x2" and b: "(str, fid') = x2"
  let ?d = "dropWhile isspace fid"
  from a b have ne: "?d \<noteq> []"
    and s: "str = take MAX_STRING_LENGTH (takeWhile (\<lambda>c. \<not> isspace c) ?d)"
    and f: "fid' = drop (length str) ?d"
    unfolding fscanf_s_def Let_def
    by (auto split: if_splits simp del: dropWhile_eq_Nil_conv length_take)
  from ne have "\<not> isspace (hd ?d)" by (rule hd_dropWhile)
  with ne s have "str \<noteq> []" by (cases ?d) (auto simp: MAX_STRING_LENGTH_def)
  with ne f have "length fid' < length ?d" by (cases ?d) auto
  also have "length ?d \<le> length fid" by (rule length_dropWhile_le)
  finally show "(fid', fid) \<in> measure length" by simp
qed

declare count_loop.simps [simp del] tokens.simps [simp del]

text \<open>Migrating the table to the array \<open>vocab\<close>: bucket by bucket, each chain from its
  head. The array grows by \<open>realloc\<close> as needed, so it is a list here.\<close>

definition migrate :: "hashtable \<Rightarrow> VOCAB list" where
  "migrate vocab_hash =
     concat (map (\<lambda>i. map (\<lambda>htmp. \<lparr>word = hword htmp, vcount = hcount htmp\<rparr>) (vocab_hash i))
                 [0..<TSIZE])"

text \<open>
  \<open>qsort\<close> is the C library's; \<open>get_counts\<close> takes it as the parameter \<open>qs\<close>, which maps
  a comparator and an array to the sorted array. Lines 159 to 164: the pre-sort of the
  whole array when the limit applies, then the sort of its first \<open>max_vocab\<close> entries.
  The result is the array and the value \<open>max_vocab\<close> has afterwards.
\<close>

type_synonym qsort = "(VOCAB \<Rightarrow> VOCAB \<Rightarrow> int) \<Rightarrow> VOCAB list \<Rightarrow> VOCAB list"

definition presort :: "qsort \<Rightarrow> int \<Rightarrow> VOCAB list \<Rightarrow> VOCAB list \<times> int" where
  "presort qs max_vocab vocab =
     (let j = int (length vocab)
      in if max_vocab > 0 \<and> max_vocab < j then (qs CompareVocab vocab, max_vocab)
         else (vocab, j))"

definition rank_vocab :: "qsort \<Rightarrow> bool \<Rightarrow> int \<Rightarrow> VOCAB list \<Rightarrow> VOCAB list \<times> int" where
  "rank_vocab qs sg max_vocab vocab =
     (let (vocab1, max_vocab1) = presort qs max_vocab vocab
      in (qs (CompareVocabTie sg) (take (nat max_vocab1) vocab1) @ drop (nat max_vocab1) vocab1,
          max_vocab1))"

text \<open>The output loop over \<open>vocab[0..max_vocab)\<close>: the entries printed, and whether the
  loop left through \<open>break\<close>.\<close>

fun emit_loop :: "int \<Rightarrow> VOCAB list \<Rightarrow> VOCAB list \<times> bool" where
  "emit_loop min_count [] = ([], False)"
| "emit_loop min_count (v # vocab) =
     (if vcount v < min_count then ([], True)
      else (let (out, brk) = emit_loop min_count vocab in (v # out, brk)))"

text \<open>\<open>%lld\<close> and the output line \<open>"%s %lld\n"\<close>.\<close>

fun decimal :: "nat \<Rightarrow> cchar list" where
  "decimal n = (if n < 10 then [48 + of_nat n] else decimal (n div 10) @ [48 + of_nat (n mod 10)])"

definition lld :: "int \<Rightarrow> cchar list" where
  "lld n = (if n < 0 then 45 # decimal (nat (- n)) else decimal (nat n))"

definition fprintf_entry :: "VOCAB \<Rightarrow> cchar list" where
  "fprintf_entry v = c_str (word v) @ [32] @ lld (vcount v) @ [10]"

record streams =
  fout :: "cchar list"
  logfile :: "logmsg list"

text \<open>The entries that \<open>get_counts\<close> prints, in order.\<close>

definition emitted :: "qsort \<Rightarrow> bool \<Rightarrow> int \<Rightarrow> int \<Rightarrow> int \<Rightarrow> cchar list \<Rightarrow> VOCAB list" where
  "emitted qs sg verbose max_vocab min_count corpus =
     (let (vocab_hash, i, lg) = count_loop sg verbose (inithashtable, 0, []) corpus;
          (vocab, max_vocab') = rank_vocab qs sg max_vocab (migrate vocab_hash)
      in fst (emit_loop min_count (take (nat max_vocab') vocab)))"

text \<open>\<open>get_counts\<close> on streams that are open: what it leaves in the output file and in
  the log.\<close>

definition get_counts_streams ::
  "qsort \<Rightarrow> bool \<Rightarrow> int \<Rightarrow> int \<Rightarrow> int \<Rightarrow> cchar list \<Rightarrow> streams" where
  "get_counts_streams qs sg verbose max_vocab min_count corpus =
     (let lg0 = [Building_vocabulary] @ (if verbose > 1 then [Processed_tokens 0] else []);
          (vocab_hash, i, lg1) = count_loop sg verbose (inithashtable, 0, lg0) corpus;
          lg2 = lg1 @ (if verbose > 1 then [Processed_total i] else []);
          vocab = migrate vocab_hash;
          j = int (length vocab);
          lg3 = lg2 @ (if verbose > 1 then [Counted_unique j] else []);
          (vocab', max_vocab') = rank_vocab qs sg max_vocab vocab;
          (out, brk) = emit_loop min_count (take (nat max_vocab') vocab');
          lg4 = lg3 @ (if brk \<and> verbose > 0 then [Truncating_min_count min_count] else []);
          i' = int (length out);
          lg5 = lg4 @ (if i' = max_vocab' \<and> max_vocab' < j \<and> verbose > 0
                       then [Truncating_size max_vocab'] else [])
      in \<lparr>fout = concat (map fprintf_entry out), logfile = lg5 @ [Using_size i']\<rparr>)"

text \<open>
  \<open>get_counts\<close> does not test what \<open>fopen\<close> returned. \<open>fid\<close> is \<open>None\<close> when the corpus
  could not be opened and \<open>fout_open\<close> is false when the output file could not; the
  calls \<open>fscanf(NULL, ...)\<close>, \<open>fprintf(NULL, ...)\<close> and \<open>fclose(NULL)\<close> have no defined
  behaviour, which is the outcome \<open>Undefined\<close>.
\<close>

datatype outcome = Exit int | Undefined | Return int streams

definition get_counts ::
  "qsort \<Rightarrow> bool \<Rightarrow> int \<Rightarrow> int \<Rightarrow> int \<Rightarrow> cchar list option \<Rightarrow> bool \<Rightarrow> outcome" where
  "get_counts qs sg verbose max_vocab min_count fid fout_open =
     (case fid of
        None \<Rightarrow> Undefined
      | Some corpus \<Rightarrow>
          if \<not> fout_open then Undefined
          else Return 0 (get_counts_streams qs sg verbose max_vocab min_count corpus))"

section \<open>\<open>vocab_count\<close>\<close>

text \<open>What the three \<open>fopen\<close> calls give: the bytes of the corpus, or \<open>None\<close>; whether
  the output file and the log file could be opened for writing.\<close>

record files =
  corpus_file :: "cchar list option"
  output_file :: bool
  log_file :: bool

definition vocab_count :: "qsort \<Rightarrow> bool \<Rightarrow> files \<Rightarrow> int \<Rightarrow> int \<Rightarrow> int \<Rightarrow> outcome" where
  "vocab_count qs sg fs verbosity max_vocab_count min_word_count =
     (if \<not> log_file fs then Exit 1
      else get_counts qs sg verbosity max_vocab_count min_word_count
             (corpus_file fs) (output_file fs))"

section \<open>The contract of \<open>qsort\<close>\<close>

text \<open>
  The C standard asks of the comparator that it orders the elements consistently, and
  promises that the array then holds the same elements in ascending order of the
  comparator. \<open>insertion_qsort\<close> is one function that keeps the contract.
\<close>

definition consistent_cmp :: "(VOCAB \<Rightarrow> VOCAB \<Rightarrow> int) \<Rightarrow> bool" where
  "consistent_cmp cmp =
     ((\<forall>a b. cmp a b \<le> 0 \<or> cmp b a \<le> 0) \<and>
      (\<forall>a b c. cmp a b \<le> 0 \<longrightarrow> cmp b c \<le> 0 \<longrightarrow> cmp a c \<le> 0))"

definition qsort_contract :: "qsort \<Rightarrow> bool" where
  "qsort_contract qs =
     (\<forall>cmp base. consistent_cmp cmp \<longrightarrow>
        mset (qs cmp base) = mset base \<and> sorted_wrt (\<lambda>a b. cmp a b \<le> 0) (qs cmp base))"

fun insert_cmp :: "(VOCAB \<Rightarrow> VOCAB \<Rightarrow> int) \<Rightarrow> VOCAB \<Rightarrow> VOCAB list \<Rightarrow> VOCAB list" where
  "insert_cmp cmp x [] = [x]"
| "insert_cmp cmp x (y # ys) = (if cmp x y \<le> 0 then x # y # ys else y # insert_cmp cmp x ys)"

definition insertion_qsort :: qsort where
  "insertion_qsort cmp base = foldr (insert_cmp cmp) base []"

section \<open>Notions used to state the properties\<close>

text \<open>All records of the table, in the order in which \<open>get_counts\<close> enumerates them.\<close>

definition ht_entries :: "hashtable \<Rightarrow> HASHREC list" where
  "ht_entries ht = concat (map ht [0..<TSIZE])"

text \<open>The same enumeration as (word, count) pairs, and the count stored for a word, if
  the table has a record of it.\<close>

definition ht_pairs :: "hashtable \<Rightarrow> (cstring \<times> int) list" where
  "ht_pairs ht = map (\<lambda>h. (hword h, hcount h)) (ht_entries ht)"

definition ht_count :: "hashtable \<Rightarrow> cstring \<Rightarrow> int option" where
  "ht_count ht w = map_of (ht_pairs ht) w"

text \<open>
  The invariant of the table: every record sits in the chain that its word hashes to, no
  chain holds a word twice, every stored word is a C string (it has no NUL byte inside)
  and every count is at least 1.
\<close>

definition ht_inv :: "bool \<Rightarrow> hashtable \<Rightarrow> bool" where
  "ht_inv sg ht =
     (\<forall>i<TSIZE. distinct (map hword (ht i)) \<and>
        (\<forall>h\<in>set (ht i). unat (bitwisehash sg (hword h) TSIZE SEED) = i \<and>
                        0 \<notin> set (hword h) \<and> 1 \<le> hcount h))"

text \<open>The table after the tokens \<open>ws\<close> have been inserted, first to last.\<close>

definition insert_all :: "bool \<Rightarrow> hashtable \<Rightarrow> cstring list \<Rightarrow> hashtable" where
  "insert_all sg ht ws = fold (\<lambda>w ht. hashinsert sg ht w) ws ht"

text \<open>
  A plain associative map from words to counts, kept as a list of pairs with one pair for
  each key: \<open>observe\<close> bumps the count of a key in place, or adds the key with count 1
  at the end. Nothing is ever reordered.
\<close>

fun observe :: "(cstring \<times> int) list \<Rightarrow> cstring \<Rightarrow> (cstring \<times> int) list" where
  "observe [] w = [(w, 1)]"
| "observe ((k, c) # m) w = (if k = w then (k, c + 1) # m else (k, c) # observe m w)"

definition observe_all :: "cstring list \<Rightarrow> (cstring \<times> int) list" where
  "observe_all ws = fold (\<lambda>w m. observe m (c_str w)) ws []"

text \<open>The array \<open>vocab\<close> that \<open>get_counts\<close> holds after the migration, for a corpus.\<close>

definition vocab_of :: "bool \<Rightarrow> cchar list \<Rightarrow> VOCAB list" where
  "vocab_of sg corpus = migrate (insert_all sg inithashtable (tokens corpus))"

text \<open>The effective cutoff \<open>M\<close> for a limit \<open>max_vocab\<close> and \<open>N\<close> entries.\<close>

definition cutoff :: "int \<Rightarrow> int \<Rightarrow> int" where
  "cutoff max_vocab N = (if max_vocab > 0 \<and> max_vocab < N then max_vocab else N)"

text \<open>
  What \<open>scmp\<close> compares: the chars of the two strings by their \<open>int\<close> value, the
  terminating NUL included.
\<close>

definition scmp_key :: "bool \<Rightarrow> cstring \<Rightarrow> int list" where
  "scmp_key sg s = map (char_int sg) (c_str s) @ [0]"

text \<open>Byte-wise lexicographic order of tokens, and the order the output is to have.\<close>

definition token_less :: "cstring \<Rightarrow> cstring \<Rightarrow> bool" where
  "token_less s t = ((s, t) \<in> lexord {(a, b). a < b})"

definition ranked_before :: "VOCAB \<Rightarrow> VOCAB \<Rightarrow> bool" where
  "ranked_before a b =
     (vcount a > vcount b \<or> (vcount a = vcount b \<and> token_less (word a) (word b)))"

text \<open>A run of bytes cut into pieces of \<open>n\<close> bytes, the last one possibly shorter.\<close>

fun pieces :: "nat \<Rightarrow> cchar list \<Rightarrow> cchar list list" where
  "pieces n r = (if n = 0 \<or> r = [] then [] else take n r # pieces n (drop n r))"

text \<open>The output file an outcome leaves, when the run returned.\<close>

fun output_of :: "outcome \<Rightarrow> cchar list option" where
  "output_of (Return r s) = Some (fout s)"
| "output_of (Exit r) = None"
| "output_of Undefined = None"

section \<open>Strings and the hash function\<close>

lemma char_int_eq_iff: "char_int sg a = char_int sg b \<longleftrightarrow> a = b"
  using word_eq_iff_signed [of a b, where ?'a = int] word_eq_iff_unsigned [of a b, where ?'a = int]
  by (simp add: char_int_def)

lemma char_int_0: "char_int sg 0 = 0"
  by (simp add: char_int_def)

lemma char_int_eq_0_iff: "char_int sg a = 0 \<longleftrightarrow> a = 0"
  using char_int_eq_iff [of sg a 0] by (simp add: char_int_0)

lemma c_str_Nil: "c_str [] = []"
  by (simp add: c_str_def)

lemma c_str_Cons: "c_str (c # s) = (if c = 0 then [] else c # c_str s)"
  by (simp add: c_str_def)

lemma c_str_idem: "c_str (c_str s) = c_str s"
  by (induction s) (simp_all add: c_str_Nil c_str_Cons)

lemma c_str_no_NUL: "0 \<notin> set (c_str s)"
  by (induction s) (simp_all add: c_str_Nil c_str_Cons)

lemma c_str_id: "0 \<notin> set s \<Longrightarrow> c_str s = s"
  by (induction s) (auto simp add: c_str_Nil c_str_Cons)

lemma scmp_eq_0_iff: "scmp sg s t = 0 \<longleftrightarrow> c_str s = c_str t"
proof (induction sg s t rule: scmp.induct)
  case (1 sg c1 s1 c2 s2)
  then show ?case by (auto simp: c_str_Cons char_int_eq_iff)
next
  case (2 sg c1 s1)
  then show ?case by (auto simp: c_str_Cons c_str_Nil char_int_0 char_int_eq_0_iff)
next
  case (3 sg s2)
  then show ?case by (cases s2) (auto simp: c_str_Cons c_str_Nil char_int_0 char_int_eq_0_iff)
qed

lemma bitwisehash_loop_c_str: "bitwisehash_loop sg h (c_str w) = bitwisehash_loop sg h w"
  by (induction w arbitrary: h) (simp_all add: c_str_Nil c_str_Cons)

lemma bitwisehash_c_str: "bitwisehash sg (c_str w) tsize seed = bitwisehash sg w tsize seed"
  by (simp add: bitwisehash_def bitwisehash_loop_c_str)

lemma bitwisehash_less: "unat (bitwisehash sg w TSIZE SEED) < TSIZE"
proof -
  have "unat (word_of_nat TSIZE :: 32 word) = TSIZE"
    by (simp add: TSIZE_def)
  moreover have "0 < TSIZE"
    by (simp add: TSIZE_def)
  ultimately show ?thesis
    unfolding bitwisehash_def
    by (simp add: unat_mod_distrib)
qed

section \<open>The records of the table\<close>

lemma concat_map_upd_other:
  "i \<notin> set ns \<Longrightarrow> concat (map (f(i := c)) ns) = concat (map f ns)"
  by (induction ns) auto

lemma ht_entries_upd:
  assumes "i < TSIZE"
  shows "ht_entries (ht(i := c)) =
           concat (map ht [0..<i]) @ c @ concat (map ht [Suc i..<TSIZE])"
proof -
  have "[0..<TSIZE] = [0..<i] @ [i..<TSIZE]"
    using upt_add_eq_append [of 0 i "TSIZE - i"] assms by simp
  also have "[i..<TSIZE] = i # [Suc i..<TSIZE]"
    using assms by (rule upt_conv_Cons)
  finally have "[0..<TSIZE] = [0..<i] @ i # [Suc i..<TSIZE]" .
  then show ?thesis
    by (simp add: ht_entries_def concat_map_upd_other)
qed

lemma ht_entries_split:
  assumes "i < TSIZE"
  shows "ht_entries ht = concat (map ht [0..<i]) @ ht i @ concat (map ht [Suc i..<TSIZE])"
  using ht_entries_upd [OF assms, of ht "ht i"] by simp

lemma mset_ht_entries_upd:
  assumes "i < TSIZE"
  shows "mset (ht_entries (ht(i := c))) + mset (ht i) = mset (ht_entries ht) + mset c"
  by (simp add: ht_entries_upd [OF assms] ht_entries_split [OF assms, of ht])

lemma ht_entries_init: "ht_entries inithashtable = []"
  by (simp add: ht_entries_def inithashtable_def)


section \<open>What \<open>hashinsert\<close> does to the table\<close>

lemma hashinsert_new:
  assumes "dropWhile (\<lambda>h. scmp sg (hword h) w \<noteq> 0) (ht (unat (bitwisehash sg w TSIZE SEED))) = []"
  shows "hashinsert sg ht w =
           ht(unat (bitwisehash sg w TSIZE SEED) :=
                ht (unat (bitwisehash sg w TSIZE SEED)) @ [\<lparr>hword = c_str w, hcount = 1\<rparr>])"
proof -
  let ?c = "ht (unat (bitwisehash sg w TSIZE SEED))"
  from assms have "takeWhile (\<lambda>h. scmp sg (hword h) w \<noteq> 0) ?c = ?c"
    by (metis append_Nil2 takeWhile_dropWhile_id)
  with assms show ?thesis
    by (simp add: hashinsert_def Let_def del: dropWhile_eq_Nil_conv takeWhile_eq_all_conv)
qed

lemma hashinsert_found:
  assumes "dropWhile (\<lambda>h. scmp sg (hword h) w \<noteq> 0) (ht (unat (bitwisehash sg w TSIZE SEED)))
             = htmp # nxt"
  shows "hashinsert sg ht w =
           ht(unat (bitwisehash sg w TSIZE SEED) :=
                htmp\<lparr>hcount := hcount htmp + 1\<rparr> #
                takeWhile (\<lambda>h. scmp sg (hword h) w \<noteq> 0) (ht (unat (bitwisehash sg w TSIZE SEED)))
                @ nxt)"
  using assms by (simp add: hashinsert_def Let_def)

lemma mset_hashinsert_new:
  assumes "dropWhile (\<lambda>h. scmp sg (hword h) w \<noteq> 0) (ht (unat (bitwisehash sg w TSIZE SEED))) = []"
  shows "mset (ht_entries (hashinsert sg ht w)) =
           add_mset \<lparr>hword = c_str w, hcount = 1\<rparr> (mset (ht_entries ht))"
proof -
  let ?i = "unat (bitwisehash sg w TSIZE SEED)"
  have "mset (ht_entries (hashinsert sg ht w)) + mset (ht ?i) =
          mset (ht_entries ht) + mset (ht ?i @ [\<lparr>hword = c_str w, hcount = 1\<rparr>])"
    unfolding hashinsert_new [where sg = sg and ht = ht and w = w, OF assms]
    by (rule mset_ht_entries_upd [OF bitwisehash_less])
  then show ?thesis by simp
qed

lemma mset_hashinsert_found:
  assumes "dropWhile (\<lambda>h. scmp sg (hword h) w \<noteq> 0) (ht (unat (bitwisehash sg w TSIZE SEED)))
             = htmp # nxt"
  shows "add_mset htmp (mset (ht_entries (hashinsert sg ht w))) =
           add_mset (htmp\<lparr>hcount := hcount htmp + 1\<rparr>) (mset (ht_entries ht))"
proof -
  let ?i = "unat (bitwisehash sg w TSIZE SEED)"
  let ?P = "\<lambda>h. scmp sg (hword h) w \<noteq> 0"
  have "mset (ht ?i) = mset (takeWhile ?P (ht ?i)) + mset (dropWhile ?P (ht ?i))"
    by (metis mset_append takeWhile_dropWhile_id)
  then have c: "mset (ht ?i) = add_mset htmp (mset (takeWhile ?P (ht ?i)) + mset nxt)"
    by (simp add: assms)
  have "mset (ht_entries (hashinsert sg ht w)) + mset (ht ?i) =
          mset (ht_entries ht) +
          mset (htmp\<lparr>hcount := hcount htmp + 1\<rparr> # takeWhile ?P (ht ?i) @ nxt)"
    unfolding hashinsert_found [where sg = sg and ht = ht and w = w, OF assms]
    by (rule mset_ht_entries_upd [OF bitwisehash_less])
  then have "add_mset htmp (mset (ht_entries (hashinsert sg ht w)))
               + (mset (takeWhile ?P (ht ?i)) + mset nxt) =
             add_mset (htmp\<lparr>hcount := hcount htmp + 1\<rparr>) (mset (ht_entries ht))
               + (mset (takeWhile ?P (ht ?i)) + mset nxt)"
    by (simp add: c)
  then show ?thesis by (simp only: add_right_cancel)
qed

lemma sum_hashinsert:
  "sum_list (map hcount (ht_entries (hashinsert sg ht w))) =
     sum_list (map hcount (ht_entries ht)) + 1"
proof (cases "dropWhile (\<lambda>h. scmp sg (hword h) w \<noteq> 0) (ht (unat (bitwisehash sg w TSIZE SEED)))")
  case Nil
  have "sum_mset (image_mset hcount (mset (ht_entries (hashinsert sg ht w)))) =
          sum_mset (image_mset hcount (mset (ht_entries ht))) + 1"
    by (simp add: mset_hashinsert_new [where sg = sg and ht = ht and w = w, OF Nil])
  then show ?thesis by (simp add: sum_mset_sum_list flip: mset_map)
next
  case (Cons htmp nxt)
  have "sum_mset (image_mset hcount (add_mset htmp (mset (ht_entries (hashinsert sg ht w))))) =
          sum_mset (image_mset hcount
            (add_mset (htmp\<lparr>hcount := hcount htmp + 1\<rparr>) (mset (ht_entries ht))))"
    by (simp only: mset_hashinsert_found [where sg = sg and ht = ht and w = w, OF Cons])
  then show ?thesis by (simp add: sum_mset_sum_list flip: mset_map)
qed


section \<open>The invariant of the table\<close>

lemma set_ht_entries: "set (ht_entries ht) = (\<Union>i\<in>{..<TSIZE}. set (ht i))"
  by (auto simp: ht_entries_def)

lemma distinct_concat_upt:
  assumes "\<And>i. i < n \<Longrightarrow> distinct (f i)"
    and "\<And>i j. i < n \<Longrightarrow> j < n \<Longrightarrow> i \<noteq> j \<Longrightarrow> set (f i) \<inter> set (f j) = {}"
  shows "distinct (concat (map f [0..<n]))"
  using assms
proof (induction n)
  case 0
  then show ?case by simp
next
  case (Suc n)
  have "distinct (concat (map f [0..<n]))"
  proof (rule Suc.IH)
    fix i assume "i < n"
    then show "distinct (f i)" using Suc.prems(1) [of i] by simp
  next
    fix i j assume "i < n" "j < n" "i \<noteq> j"
    then show "set (f i) \<inter> set (f j) = {}" using Suc.prems(2) [of i j] by simp
  qed
  moreover have "distinct (f n)" by (rule Suc.prems(1)) simp
  moreover have "set (f i) \<inter> set (f n) = {}" if "i < n" for i
    using Suc.prems(2) [of i n] that by simp
  then have "set (concat (map f [0..<n])) \<inter> set (f n) = {}"
    by (auto simp: disjoint_iff)
  ultimately show ?case by simp
qed

lemma ht_inv_init: "ht_inv sg inithashtable"
  by (simp add: ht_inv_def inithashtable_def)

lemma ht_inv_entry:
  assumes "ht_inv sg ht" and "h \<in> set (ht_entries ht)"
  shows "h \<in> set (ht (unat (bitwisehash sg (hword h) TSIZE SEED)))"
    and "0 \<notin> set (hword h)" and "1 \<le> hcount h"
  using assms by (auto simp: ht_inv_def set_ht_entries)

lemma ht_inv_distinct:
  assumes "ht_inv sg ht"
  shows "distinct (map hword (ht_entries ht))"
proof -
  have "distinct (concat (map (\<lambda>i. map hword (ht i)) [0..<TSIZE]))"
  proof (rule distinct_concat_upt)
    fix i assume "i < TSIZE"
    with assms show "distinct (map hword (ht i))" by (simp add: ht_inv_def)
  next
    fix i j assume ij: "i < TSIZE" "j < TSIZE" "i \<noteq> j"
    have "unat (bitwisehash sg u TSIZE SEED) = i" if "u \<in> set (map hword (ht i))" for u
      using assms ij(1) that by (auto simp: ht_inv_def)
    moreover have "unat (bitwisehash sg u TSIZE SEED) = j" if "u \<in> set (map hword (ht j))" for u
      using assms ij(2) that by (auto simp: ht_inv_def)
    ultimately show "set (map hword (ht i)) \<inter> set (map hword (ht j)) = {}"
      using ij(3) by blast
  qed
  then show ?thesis by (simp add: ht_entries_def map_concat comp_def)
qed

text \<open>Under the invariant the scan of \<open>hashinsert\<close> compares stored words with the token's
  C string.\<close>

lemma ht_inv_scan:
  assumes "ht_inv sg ht" and "i < TSIZE"
  shows "dropWhile (\<lambda>h. scmp sg (hword h) w \<noteq> 0) (ht i) = dropWhile (\<lambda>h. hword h \<noteq> c_str w) (ht i)"
    and "takeWhile (\<lambda>h. scmp sg (hword h) w \<noteq> 0) (ht i) = takeWhile (\<lambda>h. hword h \<noteq> c_str w) (ht i)"
proof -
  have "\<And>h. h \<in> set (ht i) \<Longrightarrow> (scmp sg (hword h) w \<noteq> 0) = (hword h \<noteq> c_str w)"
    using assms by (simp add: ht_inv_def scmp_eq_0_iff c_str_id)
  then show "dropWhile (\<lambda>h. scmp sg (hword h) w \<noteq> 0) (ht i) = dropWhile (\<lambda>h. hword h \<noteq> c_str w) (ht i)"
    and "takeWhile (\<lambda>h. scmp sg (hword h) w \<noteq> 0) (ht i) = takeWhile (\<lambda>h. hword h \<noteq> c_str w) (ht i)"
    by (auto intro: dropWhile_cong takeWhile_cong)
qed

lemma ht_inv_upd:
  assumes "ht_inv sg ht" and "i < TSIZE" and "distinct (map hword c)"
    and "\<And>h. h \<in> set c \<Longrightarrow> unat (bitwisehash sg (hword h) TSIZE SEED) = i \<and>
                        0 \<notin> set (hword h) \<and> 1 \<le> hcount h"
  shows "ht_inv sg (ht(i := c))"
  using assms by (auto simp: ht_inv_def)

lemma ht_inv_hashinsert:
  assumes "ht_inv sg ht"
  shows "ht_inv sg (hashinsert sg ht w)"
proof -
  let ?i = "unat (bitwisehash sg w TSIZE SEED)"
  let ?P = "\<lambda>h. scmp sg (hword h) w \<noteq> 0"
  have i: "?i < TSIZE" by (rule bitwisehash_less)
  have chain: "distinct (map hword (ht ?i))"
    and rec: "\<And>h. h \<in> set (ht ?i) \<Longrightarrow>
        unat (bitwisehash sg (hword h) TSIZE SEED) = ?i \<and> 0 \<notin> set (hword h) \<and> 1 \<le> hcount h"
    using assms i by (auto simp: ht_inv_def)
  have split: "ht ?i = takeWhile ?P (ht ?i) @ dropWhile ?P (ht ?i)" by simp
  show ?thesis
  proof (cases "dropWhile ?P (ht ?i)")
    case Nil
    then have "\<forall>h\<in>set (ht ?i). ?P h" by (simp add: dropWhile_eq_Nil_conv)
    then have "\<forall>h\<in>set (ht ?i). hword h \<noteq> c_str w"
      using rec by (auto simp: scmp_eq_0_iff c_str_id c_str_idem)
    then have "distinct (map hword (ht ?i @ [\<lparr>hword = c_str w, hcount = 1\<rparr>]))"
      using chain by auto
    moreover have "\<And>h. h \<in> set (ht ?i @ [\<lparr>hword = c_str w, hcount = 1\<rparr>]) \<Longrightarrow>
        unat (bitwisehash sg (hword h) TSIZE SEED) = ?i \<and> 0 \<notin> set (hword h) \<and> 1 \<le> hcount h"
      using rec by (auto simp: bitwisehash_c_str c_str_no_NUL)
    ultimately show ?thesis
      unfolding hashinsert_new [where sg = sg and ht = ht and w = w, OF Nil]
      by (intro ht_inv_upd [OF assms i])
  next
    case (Cons htmp nxt)
    define prv where "prv = takeWhile ?P (ht ?i)"
    let ?c = "htmp\<lparr>hcount := hcount htmp + 1\<rparr> # prv @ nxt"
    from split Cons have s: "ht ?i = prv @ htmp # nxt" by (simp add: prv_def)
    have "mset (map hword ?c) = mset (map hword (ht ?i))"
      by (simp add: s)
    then have d: "distinct (map hword ?c)"
      using chain by (metis mset_eq_imp_distinct_iff)
    have "htmp \<in> set (ht ?i)" by (simp add: s)
    from rec [OF this]
    have "unat (bitwisehash sg (hword h) TSIZE SEED) = ?i \<and> 0 \<notin> set (hword h) \<and> 1 \<le> hcount h"
      if "h = htmp\<lparr>hcount := hcount htmp + 1\<rparr>" for h
      using that by simp
    moreover have "h = htmp\<lparr>hcount := hcount htmp + 1\<rparr> \<or> h \<in> set (ht ?i)"
      if "h \<in> set ?c" for h
      using that by (auto simp: s)
    ultimately have r: "unat (bitwisehash sg (hword h) TSIZE SEED) = ?i \<and> 0 \<notin> set (hword h)
        \<and> 1 \<le> hcount h" if "h \<in> set ?c" for h
      using that rec by blast
    show ?thesis
      unfolding hashinsert_found [where sg = sg and ht = ht and w = w, OF Cons]
        prv_def [symmetric]
      using d r by (rule ht_inv_upd [OF assms i])
  qed
qed

lemma ht_inv_insert_all: "ht_inv sg ht \<Longrightarrow> ht_inv sg (insert_all sg ht ws)"
  by (induction ws arbitrary: ht) (simp_all add: insert_all_def ht_inv_hashinsert)

section \<open>The counting loop\<close>

lemma sum_insert_all:
  "sum_list (map hcount (ht_entries (insert_all sg ht ws))) =
     sum_list (map hcount (ht_entries ht)) + int (length ws)"
  by (induction ws arbitrary: ht) (simp_all add: insert_all_def sum_hashinsert)

lemma count_loop_None:
  "fscanf_s MAX_STRING_LENGTH fid = None \<Longrightarrow>
     count_loop sg verbose (ht, i, lg) fid = (ht, i, lg)"
  by (subst count_loop.simps) simp

lemma count_loop_Some:
  "fscanf_s MAX_STRING_LENGTH fid = Some (str, fid') \<Longrightarrow>
     count_loop sg verbose (ht, i, lg) fid =
       count_loop sg verbose
         (hashinsert sg ht str, i + 1,
          if (i + 1) mod 100000 = 0 \<and> verbose > 1 then lg @ [Progress_tokens (i + 1)] else lg)
         fid'"
  by (subst count_loop.simps) simp

lemma tokens_None: "fscanf_s MAX_STRING_LENGTH fid = None \<Longrightarrow> tokens fid = []"
  by (subst tokens.simps) simp

lemma tokens_Some:
  "fscanf_s MAX_STRING_LENGTH fid = Some (str, fid') \<Longrightarrow> tokens fid = str # tokens fid'"
  by (subst tokens.simps) simp

lemma count_loop_tokens:
  "fst (count_loop sg verbose (ht, i, lg) fid) = insert_all sg ht (tokens fid) \<and>
   fst (snd (count_loop sg verbose (ht, i, lg) fid)) = i + int (length (tokens fid))"
proof (induction sg verbose "(ht, i, lg)" fid arbitrary: ht i lg rule: count_loop.induct)
  case (1 sg verbose vocab_hash i lg fid)
  show ?case
  proof (cases "fscanf_s MAX_STRING_LENGTH fid")
    case None
    then show ?thesis
      by (simp add: count_loop_None tokens_None insert_all_def)
  next
    case (Some p)
    obtain str fid' where p: "p = (str, fid')" by (cases p)
    from "1.hyps" [OF Some p [symmetric]] Some p
    show ?thesis
      by (simp add: count_loop_Some tokens_Some insert_all_def)
  qed
qed

text \<open>
  Claim C4 (conservation). When the counting loop is over, the counts of all records of
  the table add up to \<open>i\<close>, the number of tokens read, which is the number of
  successful \<open>fscanf\<close> calls; and one call of \<open>hashinsert\<close> adds exactly 1 to the
  sum of the counts, whatever the table and the token.
\<close>

theorem conservation:
  "(case count_loop sg verbose (inithashtable, 0, lg) corpus of
      (vocab_hash, i, lg') \<Rightarrow>
        sum_list (map hcount (ht_entries vocab_hash)) = i \<and> i = int (length (tokens corpus)))
   \<and> sum_list (map hcount (ht_entries (hashinsert sg ht w))) =
       sum_list (map hcount (ht_entries ht)) + 1"
proof -
  obtain vocab_hash i lg' where
    c: "count_loop sg verbose (inithashtable, 0, lg) corpus = (vocab_hash, i, lg')"
    by (cases "count_loop sg verbose (inithashtable, 0, lg) corpus") auto
  from count_loop_tokens [of sg verbose inithashtable 0 lg corpus]
  have "vocab_hash = insert_all sg inithashtable (tokens corpus)"
    and "i = int (length (tokens corpus))"
    by (simp_all add: c)
  then show ?thesis
    by (simp add: c sum_insert_all ht_entries_init sum_hashinsert)
qed

section \<open>Looking a word up in the table\<close>

lemma ht_pairs_init: "ht_pairs inithashtable = []"
  by (simp add: ht_pairs_def ht_entries_init)

lemma fst_ht_pairs: "map fst (ht_pairs ht) = map hword (ht_entries ht)"
  by (simp add: ht_pairs_def comp_def)

lemma ht_inv_distinct_pairs: "ht_inv sg ht \<Longrightarrow> distinct (map fst (ht_pairs ht))"
  using ht_inv_distinct [of sg ht] by (simp add: fst_ht_pairs)

lemma mset_pairs_new:
  assumes "dropWhile (\<lambda>h. scmp sg (hword h) w \<noteq> 0) (ht (unat (bitwisehash sg w TSIZE SEED))) = []"
  shows "mset (ht_pairs (hashinsert sg ht w)) = add_mset (c_str w, 1) (mset (ht_pairs ht))"
  using arg_cong [OF mset_hashinsert_new [where sg = sg and ht = ht and w = w, OF assms],
      of "image_mset (\<lambda>h. (hword h, hcount h))"]
  by (simp add: ht_pairs_def)

lemma mset_pairs_found:
  assumes "dropWhile (\<lambda>h. scmp sg (hword h) w \<noteq> 0) (ht (unat (bitwisehash sg w TSIZE SEED)))
             = htmp # nxt"
  shows "add_mset (hword htmp, hcount htmp) (mset (ht_pairs (hashinsert sg ht w))) =
           add_mset (hword htmp, hcount htmp + 1) (mset (ht_pairs ht))"
  using arg_cong [OF mset_hashinsert_found [where sg = sg and ht = ht and w = w, OF assms],
      of "image_mset (\<lambda>h. (hword h, hcount h))"]
  by (simp add: ht_pairs_def)

text \<open>Under the invariant, the scan finds a record exactly when the table has the word.\<close>

lemma ht_inv_scan_Nil:
  assumes "ht_inv sg ht"
    and "dropWhile (\<lambda>h. scmp sg (hword h) w \<noteq> 0) (ht (unat (bitwisehash sg w TSIZE SEED))) = []"
  shows "c_str w \<notin> fst ` set (ht_pairs ht)"
proof
  assume "c_str w \<in> fst ` set (ht_pairs ht)"
  then obtain h where h: "h \<in> set (ht_entries ht)" and w: "hword h = c_str w"
    by (auto simp: ht_pairs_def)
  from ht_inv_entry(1) [OF assms(1) h]
  have "h \<in> set (ht (unat (bitwisehash sg w TSIZE SEED)))"
    by (simp add: w bitwisehash_c_str)
  with assms(2) have "scmp sg (hword h) w \<noteq> 0"
    by (simp add: dropWhile_eq_Nil_conv)
  then show False by (simp add: scmp_eq_0_iff w c_str_idem)
qed

lemma ht_inv_scan_Cons:
  assumes "ht_inv sg ht"
    and "dropWhile (\<lambda>h. scmp sg (hword h) w \<noteq> 0) (ht (unat (bitwisehash sg w TSIZE SEED)))
           = htmp # nxt"
  shows "hword htmp = c_str w" and "(c_str w, hcount htmp) \<in> set (ht_pairs ht)"
proof -
  let ?i = "unat (bitwisehash sg w TSIZE SEED)"
  have "htmp \<in> set (ht ?i)"
    using set_dropWhileD [of htmp "\<lambda>h. scmp sg (hword h) w \<noteq> 0" "ht ?i"] assms(2) by simp
  then have e: "htmp \<in> set (ht_entries ht)"
    using bitwisehash_less [of sg w] by (auto simp: set_ht_entries)
  have "\<not> scmp sg (hword htmp) w \<noteq> 0"
    using hd_dropWhile [of "\<lambda>h. scmp sg (hword h) w \<noteq> 0" "ht ?i"] assms(2) by simp
  then have "c_str (hword htmp) = c_str w" by (simp add: scmp_eq_0_iff)
  then show w: "hword htmp = c_str w"
    using ht_inv_entry(2) [OF assms(1) e] by (simp add: c_str_id)
  from e show "(c_str w, hcount htmp) \<in> set (ht_pairs ht)"
    by (auto simp: ht_pairs_def w [symmetric])
qed

lemma add_mset_eq_other:
  assumes "add_mset a M' = add_mset b M" and "p \<noteq> a" and "p \<noteq> b"
  shows "(p \<in># M') = (p \<in># M)"
proof -
  from arg_cong [OF assms(1), of "\<lambda>M. count M p"] assms(2,3)
  have "count M' p = count M p" by simp
  then show ?thesis by (metis not_in_iff)
qed

lemma add_mset_eq_new:
  assumes "add_mset a M' = add_mset b M" and "a \<noteq> b"
  shows "b \<in># M'"
proof -
  have "b \<in># add_mset a M'" by (simp add: assms(1))
  with assms(2) show ?thesis by simp
qed

lemma option_eqI: "(\<And>v. a = Some v \<longleftrightarrow> b = Some v) \<Longrightarrow> a = b"
  by (cases a; cases b) auto

lemma ht_count_hashinsert:
  assumes "ht_inv sg ht"
  shows "ht_count (hashinsert sg ht w) =
           (ht_count ht)(c_str w \<mapsto> (case ht_count ht (c_str w) of None \<Rightarrow> 1 | Some c \<Rightarrow> c + 1))"
proof -
  let ?ht' = "hashinsert sg ht w"
  have d: "distinct (map fst (ht_pairs ht))"
    by (rule ht_inv_distinct_pairs [OF assms])
  have d': "distinct (map fst (ht_pairs ?ht'))"
    by (rule ht_inv_distinct_pairs [OF ht_inv_hashinsert [OF assms]])
  show ?thesis
  proof (cases "dropWhile (\<lambda>h. scmp sg (hword h) w \<noteq> 0) (ht (unat (bitwisehash sg w TSIZE SEED)))")
    case Nil
    from ht_inv_scan_Nil [OF assms Nil]
    have none: "map_of (ht_pairs ht) (c_str w) = None"
      by (simp add: map_of_eq_None_iff)
    have "set (ht_pairs ?ht') = insert (c_str w, 1) (set (ht_pairs ht))"
      using arg_cong [OF mset_pairs_new [where sg = sg and ht = ht and w = w, OF Nil], of set_mset]
      by simp
    then have "map_of (ht_pairs ?ht') u = ((map_of (ht_pairs ht))(c_str w \<mapsto> 1)) u" for u
      using d d' none by (intro option_eqI) (auto simp: map_of_eq_Some_iff)
    then show ?thesis by (auto simp: ht_count_def none)
  next
    case (Cons htmp nxt)
    note f = ht_inv_scan_Cons [OF assms Cons]
    from f(2) d have some: "map_of (ht_pairs ht) (c_str w) = Some (hcount htmp)"
      by simp
    from mset_pairs_found [where sg = sg and ht = ht and w = w, OF Cons]
    have m: "add_mset (c_str w, hcount htmp) (mset (ht_pairs ?ht')) =
             add_mset (c_str w, hcount htmp + 1) (mset (ht_pairs ht))"
      by (simp add: f(1))
    have "(p \<in> set (ht_pairs ?ht')) = (p \<in> set (ht_pairs ht))" if "fst p \<noteq> c_str w" for p
      using add_mset_eq_other [OF m, of p] that by (cases p) auto
    then have other: "map_of (ht_pairs ?ht') u = map_of (ht_pairs ht) u" if "u \<noteq> c_str w" for u
      using d d' that by (intro option_eqI) (simp add: map_of_eq_Some_iff)
    have "(c_str w, hcount htmp + 1) \<in> set (ht_pairs ?ht')"
      using add_mset_eq_new [OF m] by simp
    with d' have "map_of (ht_pairs ?ht') (c_str w) = Some (hcount htmp + 1)"
      by simp
    with other show ?thesis by (auto simp: ht_count_def some)
  qed
qed

section \<open>The table against a plain map\<close>

lemma map_of_observe:
  "map_of (observe m k) = (map_of m)(k \<mapsto> (case map_of m k of None \<Rightarrow> 1 | Some c \<Rightarrow> c + 1))"
  by (induction m k rule: observe.induct) (auto simp: fun_eq_iff)

lemma fst_observe:
  "map fst (observe m k) = (if k \<in> fst ` set m then map fst m else map fst m @ [k])"
  by (induction m k rule: observe.induct) auto

lemma distinct_observe: "distinct (map fst m) \<Longrightarrow> distinct (map fst (observe m k))"
  by (simp add: fst_observe)

lemma mset_eq_of_map_of:
  assumes "distinct (map fst xs)" and "distinct (map fst ys)" and "map_of xs = map_of ys"
  shows "mset xs = mset ys"
proof -
  from assms have "set xs = set ys" by (simp add: map_of_inject_set)
  moreover from assms(1,2) have "distinct xs" and "distinct ys"
    by (auto dest: distinct_map [THEN iffD1])
  ultimately show ?thesis by (simp add: set_eq_iff_mset_eq_distinct)
qed

lemma insert_all_refines:
  assumes "ht_inv sg ht" and "distinct (map fst m)" and "map_of (ht_pairs ht) = map_of m"
  shows "distinct (map fst (fold (\<lambda>w m. observe m (c_str w)) ws m)) \<and>
         map_of (ht_pairs (insert_all sg ht ws)) = map_of (fold (\<lambda>w m. observe m (c_str w)) ws m)"
  using assms
proof (induction ws arbitrary: ht m)
  case Nil
  then show ?case by (simp add: insert_all_def)
next
  case (Cons w ws)
  have "map_of (ht_pairs (hashinsert sg ht w)) = map_of (observe m (c_str w))"
    using ht_count_hashinsert [OF Cons.prems(1), of w] Cons.prems(3)
    by (simp add: ht_count_def fun_eq_iff map_of_observe)
  from Cons.IH [OF ht_inv_hashinsert [OF Cons.prems(1)] distinct_observe [OF Cons.prems(2)] this]
  show ?case by (simp add: insert_all_def)
qed

lemma mset_ht_pairs_insert_all:
  "mset (ht_pairs (insert_all sg inithashtable ws)) = mset (observe_all ws)"
proof -
  have r: "distinct (map fst (observe_all ws)) \<and>
        map_of (ht_pairs (insert_all sg inithashtable ws)) = map_of (observe_all ws)"
    unfolding observe_all_def
    by (rule insert_all_refines [OF ht_inv_init]) (simp_all add: ht_pairs_init)
  show ?thesis
    by (rule mset_eq_of_map_of
          [OF ht_inv_distinct_pairs [OF ht_inv_insert_all [OF ht_inv_init]] conjunct1 [OF r] conjunct2 [OF r]])
qed

lemma distinct_observe_all: "distinct (map fst (observe_all ws))"
  unfolding observe_all_def
  using insert_all_refines [where sg = sg and ht = inithashtable and m = "[]" and ws = ws]
  by (simp add: ht_pairs_init ht_inv_init)

text \<open>Both count occurrences: the count of a word is the number of tokens read whose C
  string is that word.\<close>

lemma map_of_fold_observe:
  "map_of (fold (\<lambda>w m. observe m (c_str w)) ws m) k =
     (case map_of m k of
        None \<Rightarrow> if k \<in> c_str ` set ws then Some (int (count_list (map c_str ws) k)) else None
      | Some c \<Rightarrow> Some (c + int (count_list (map c_str ws) k)))"
proof (induction ws arbitrary: m)
  case Nil
  then show ?case by (simp split: option.splits)
next
  case (Cons w ws)
  have "0 < count_list (map c_str ws) k" if "k \<in> c_str ` set ws"
    using that by (simp add: count_list_0_iff [of "map c_str ws" k] zero_less_iff_neq_zero)
  then show ?case
    by (auto simp: Cons.IH map_of_observe count_list_0_iff split: option.splits)
qed

lemma observe_all_occurrences:
  "map_of (observe_all ws) k =
     (if k \<in> c_str ` set ws then Some (int (count_list (map c_str ws) k)) else None)"
  by (simp add: observe_all_def map_of_fold_observe)

lemma ht_count_occurrences:
  "ht_count (insert_all sg inithashtable ws) k =
     (if k \<in> c_str ` set ws then Some (int (count_list (map c_str ws) k)) else None)"
proof -
  have "map_of (ht_pairs (insert_all sg inithashtable ws)) = map_of (observe_all ws)"
    unfolding observe_all_def
    using insert_all_refines [where sg = sg and ht = inithashtable and m = "[]" and ws = ws]
    by (simp add: ht_pairs_init ht_inv_init)
  then show ?thesis by (simp add: ht_count_def observe_all_occurrences)
qed

lemma migrate_pairs: "map (\<lambda>v. (word v, vcount v)) (migrate ht) = ht_pairs ht"
  by (simp add: migrate_def ht_pairs_def ht_entries_def map_concat comp_def)

lemma migrate_entries:
  "migrate ht = map (\<lambda>htmp. \<lparr>word = hword htmp, vcount = hcount htmp\<rparr>) (ht_entries ht)"
  by (simp add: migrate_def ht_entries_def map_concat comp_def)

text \<open>
  Claim C7 (refinement). For every sequence of tokens, the (word, count) pairs enumerated
  from the move-to-front table, as a multiset, are the pairs of the plain associative map
  that saw the same tokens; the array \<open>vocab\<close> that \<open>get_counts\<close> fills from the table
  holds the same pairs.
\<close>

theorem move_to_front_refines_plain_map:
  "mset (ht_pairs (insert_all sg inithashtable ws)) = mset (observe_all ws) \<and>
   mset (map (\<lambda>v. (word v, vcount v)) (migrate (insert_all sg inithashtable ws)))
     = mset (observe_all ws)"
proof -
  let ?ht = "insert_all sg inithashtable ws"
  have table: "mset (ht_pairs ?ht) = mset (observe_all ws)"
    by (rule mset_ht_pairs_insert_all)
  have "map (\<lambda>v. (word v, vcount v)) (migrate ?ht) = ht_pairs ?ht"
    by (rule migrate_pairs)
  then have "mset (map (\<lambda>v. (word v, vcount v)) (migrate ?ht)) = mset (observe_all ws)"
    by (simp only: table)
  with table show ?thesis by (rule conjI)
qed

lemma hashinsert_others:
  "filter_mset (\<lambda>h. c_str (hword h) \<noteq> c_str w) (mset (ht_entries (hashinsert sg ht w))) =
   filter_mset (\<lambda>h. c_str (hword h) \<noteq> c_str w) (mset (ht_entries ht))"
proof (cases "dropWhile (\<lambda>h. scmp sg (hword h) w \<noteq> 0) (ht (unat (bitwisehash sg w TSIZE SEED)))")
  case Nil
  show ?thesis
    by (simp add: mset_hashinsert_new [where sg = sg and ht = ht and w = w, OF Nil] c_str_idem)
next
  case (Cons htmp nxt)
  have "\<not> scmp sg (hword htmp) w \<noteq> 0"
    using hd_dropWhile [of "\<lambda>h. scmp sg (hword h) w \<noteq> 0" "ht (unat (bitwisehash sg w TSIZE SEED))"]
      Cons by simp
  then have w: "c_str (hword htmp) = c_str w" by (simp add: scmp_eq_0_iff)
  from arg_cong [OF mset_hashinsert_found [where sg = sg and ht = ht and w = w, OF Cons],
      of "filter_mset (\<lambda>h. c_str (hword h) \<noteq> c_str w)"]
  show ?thesis by (simp add: w)
qed

lemma hashinsert_length:
  "length (ht_entries (hashinsert sg ht w)) = length (ht_entries ht) \<or>
   length (ht_entries (hashinsert sg ht w)) = length (ht_entries ht) + 1"
proof (cases "dropWhile (\<lambda>h. scmp sg (hword h) w \<noteq> 0) (ht (unat (bitwisehash sg w TSIZE SEED)))")
  case Nil
  from arg_cong [OF mset_hashinsert_new [where sg = sg and ht = ht and w = w, OF Nil], of size]
  show ?thesis by simp
next
  case (Cons htmp nxt)
  from arg_cong [OF mset_hashinsert_found [where sg = sg and ht = ht and w = w, OF Cons], of size]
  show ?thesis by simp
qed

text \<open>
  Claim C10 (frame of \<open>hashinsert\<close>). Whatever the table, \<open>hashinsert\<close> with the token
  \<open>w\<close> leaves every record of another word as it is, removes no record and adds at most
  one. On a table that satisfies the invariant, which is every table that \<open>get_counts\<close>
  builds, it sets the count of the word of \<open>w\<close> to 1 if the table had no record of it and
  to its old count plus 1 otherwise; the count of every other word is unchanged; the
  stored words are the old ones and the word of \<open>w\<close>; the number of records grows by one
  exactly when the word is new; and the invariant still holds.
\<close>

theorem hashinsert_frame:
  "filter_mset (\<lambda>h. c_str (hword h) \<noteq> c_str w) (mset (ht_entries (hashinsert sg ht w))) =
     filter_mset (\<lambda>h. c_str (hword h) \<noteq> c_str w) (mset (ht_entries ht)) \<and>
   (length (ht_entries (hashinsert sg ht w)) = length (ht_entries ht) \<or>
    length (ht_entries (hashinsert sg ht w)) = length (ht_entries ht) + 1) \<and>
   (ht_inv sg ht \<longrightarrow>
      ht_count (hashinsert sg ht w) (c_str w) =
        Some (case ht_count ht (c_str w) of None \<Rightarrow> 1 | Some c \<Rightarrow> c + 1) \<and>
      (\<forall>u. u \<noteq> c_str w \<longrightarrow> ht_count (hashinsert sg ht w) u = ht_count ht u) \<and>
      set (map hword (ht_entries (hashinsert sg ht w))) =
        insert (c_str w) (set (map hword (ht_entries ht))) \<and>
      length (ht_entries (hashinsert sg ht w)) =
        (if c_str w \<in> set (map hword (ht_entries ht)) then length (ht_entries ht)
         else length (ht_entries ht) + 1) \<and>
      ht_inv sg (hashinsert sg ht w))"
proof (intro conjI impI)
  show "filter_mset (\<lambda>h. c_str (hword h) \<noteq> c_str w) (mset (ht_entries (hashinsert sg ht w))) =
     filter_mset (\<lambda>h. c_str (hword h) \<noteq> c_str w) (mset (ht_entries ht))"
    by (rule hashinsert_others)
  show "length (ht_entries (hashinsert sg ht w)) = length (ht_entries ht) \<or>
    length (ht_entries (hashinsert sg ht w)) = length (ht_entries ht) + 1"
    by (rule hashinsert_length)
next
  assume inv: "ht_inv sg ht"
  let ?ht' = "hashinsert sg ht w"
  note c = ht_count_hashinsert [OF inv, of w]
  show "ht_count ?ht' (c_str w) = Some (case ht_count ht (c_str w) of None \<Rightarrow> 1 | Some c \<Rightarrow> c + 1)"
    by (simp add: c)
  show "\<forall>u. u \<noteq> c_str w \<longrightarrow> ht_count ?ht' u = ht_count ht u"
    by (simp add: c)
  have dom: "set (map hword (ht_entries h)) = dom (ht_count h)" for h
    by (simp add: ht_count_def [abs_def] dom_map_of_conv_image_fst ht_pairs_def image_image)
  show words: "set (map hword (ht_entries ?ht')) = insert (c_str w) (set (map hword (ht_entries ht)))"
    unfolding dom by (simp add: c)
  have d: "distinct (map hword (ht_entries ht))" and d': "distinct (map hword (ht_entries ?ht'))"
    using inv by (auto intro: ht_inv_distinct ht_inv_hashinsert)
  have "card (set (map hword (ht_entries ?ht'))) =
          card (insert (c_str w) (set (map hword (ht_entries ht))))"
    by (simp only: words)
  then show "length (ht_entries ?ht') =
           (if c_str w \<in> set (map hword (ht_entries ht)) then length (ht_entries ht)
            else length (ht_entries ht) + 1)"
    using distinct_card [OF d] distinct_card [OF d']
    by (auto simp: insert_absorb card_insert_if)
  show "ht_inv sg ?ht'"
    by (rule ht_inv_hashinsert [OF inv])
qed

section \<open>The order of the comparators, and a function that keeps the contract of qsort\<close>

lemma scmp_key_Nil: "scmp_key sg [] = [0]"
  by (simp add: scmp_key_def c_str_Nil)

lemma scmp_key_Cons:
  "scmp_key sg (c # s) = (if c = 0 then [0] else char_int sg c # scmp_key sg s)"
  by (simp add: scmp_key_def c_str_Cons)

lemma scmp_less_iff: "scmp sg s t < 0 \<longleftrightarrow> scmp_key sg s < scmp_key sg t"
proof (induction sg s t rule: scmp.induct)
  case (1 sg c1 s1 c2 s2)
  then show ?case
    by (auto simp: scmp_key_Cons char_int_eq_iff char_int_0 char_int_eq_0_iff)
next
  case (2 sg c1 s1)
  then show ?case
    by (auto simp: scmp_key_Cons scmp_key_Nil char_int_0 char_int_eq_0_iff)
next
  case (3 sg s2)
  then show ?case
    by (cases s2) (auto simp: scmp_key_Cons scmp_key_Nil char_int_0 char_int_eq_0_iff)
qed

lemma scmp_key_eq_iff: "scmp_key sg s = scmp_key sg t \<longleftrightarrow> c_str s = c_str t"
  by (auto simp: scmp_key_def inj_on_def char_int_eq_iff intro!: map_injective [of "char_int sg"] injI)

lemma scmp_le_iff: "scmp sg s t \<le> 0 \<longleftrightarrow> scmp_key sg s \<le> scmp_key sg t"
  using scmp_less_iff [of sg s t] scmp_eq_0_iff [of sg s t] scmp_key_eq_iff [of sg s t]
  by (auto simp: order_le_less)

lemma CompareVocabTie_le_iff:
  "CompareVocabTie sg a b \<le> 0 \<longleftrightarrow>
     vcount b < vcount a \<or> (vcount a = vcount b \<and> scmp_key sg (word a) \<le> scmp_key sg (word b))"
  by (auto simp: CompareVocabTie_def Let_def scmp_le_iff)

lemma CompareVocabTie_less_iff:
  "CompareVocabTie sg a b < 0 \<longleftrightarrow>
     vcount b < vcount a \<or> (vcount a = vcount b \<and> scmp_key sg (word a) < scmp_key sg (word b))"
  by (auto simp: CompareVocabTie_def Let_def scmp_less_iff)

lemma CompareVocab_le_iff: "CompareVocab a b \<le> 0 \<longleftrightarrow> vcount b \<le> vcount a"
  by (auto simp: CompareVocab_def Let_def)

lemma consistent_CompareVocabTie: "consistent_cmp (CompareVocabTie sg)"
  unfolding consistent_cmp_def CompareVocabTie_le_iff by (auto simp: not_le)

lemma consistent_CompareVocab: "consistent_cmp CompareVocab"
  unfolding consistent_cmp_def CompareVocab_le_iff by auto

lemma mset_insert_cmp: "mset (insert_cmp cmp x ys) = add_mset x (mset ys)"
  by (induction ys) simp_all

lemma set_insert_cmp: "set (insert_cmp cmp x ys) = insert x (set ys)"
  by (induction ys) auto

lemma sorted_insert_cmp:
  assumes "consistent_cmp cmp" and "sorted_wrt (\<lambda>a b. cmp a b \<le> 0) ys"
  shows "sorted_wrt (\<lambda>a b. cmp a b \<le> 0) (insert_cmp cmp x ys)"
  using assms(2)
proof (induction ys)
  case Nil
  then show ?case by simp
next
  case (Cons y ys)
  from assms(1) have tot: "cmp x y \<le> 0 \<or> cmp y x \<le> 0"
    and tr: "\<And>a b c. cmp a b \<le> 0 \<Longrightarrow> cmp b c \<le> 0 \<Longrightarrow> cmp a c \<le> 0"
    unfolding consistent_cmp_def by blast+
  show ?case
  proof (cases "cmp x y \<le> 0")
    case True
    with Cons.prems tr show ?thesis by auto
  next
    case False
    with tot have "cmp y x \<le> 0" by simp
    with False Cons show ?thesis by (auto simp: set_insert_cmp)
  qed
qed

lemma insertion_qsort_contract: "qsort_contract insertion_qsort"
proof -
  have "mset (insertion_qsort cmp base) = mset base" for cmp base
    unfolding insertion_qsort_def by (induction base) (simp_all add: mset_insert_cmp)
  moreover have "sorted_wrt (\<lambda>a b. cmp a b \<le> 0) (insertion_qsort cmp base)"
    if "consistent_cmp cmp" for cmp base
    unfolding insertion_qsort_def by (induction base) (simp_all add: sorted_insert_cmp [OF that])
  ultimately show ?thesis by (simp add: qsort_contract_def)
qed

section \<open>Sorting and the output loop\<close>

lemma emit_loop_fst: "fst (emit_loop min_count vocab) = takeWhile (\<lambda>v. \<not> vcount v < min_count) vocab"
  by (induction vocab) (simp_all add: split_beta)

lemma emit_loop_snd: "snd (emit_loop min_count vocab) = (\<exists>v\<in>set vocab. vcount v < min_count)"
  by (induction vocab) (auto simp: split_beta)

lemma count_loop_table:
  "fst (count_loop sg verbose (inithashtable, 0, lg) corpus) =
     insert_all sg inithashtable (tokens corpus)"
  using count_loop_tokens [of sg verbose inithashtable 0 lg corpus] by simp

lemma member_le_sum_list_int:
  fixes f :: "'a \<Rightarrow> int"
  assumes "\<forall>x\<in>set xs. 0 \<le> f x" and "h \<in> set xs"
  shows "f h \<le> sum_list (map f xs)"
  using assms
proof (induction xs)
  case Nil
  then show ?case by simp
next
  case (Cons x xs)
  have "0 \<le> sum_list (map f xs)"
    using Cons.prems(1) by (intro sum_list_nonneg) auto
  with Cons show ?case by auto
qed

text \<open>Every count in the table is at least 1 and at most the number of tokens read.\<close>

lemma count_loop_counts_bounded:
  assumes "h \<in> set (ht_entries (fst (count_loop sg verbose (inithashtable, 0, lg) corpus)))"
  shows "1 \<le> hcount h" and "hcount h \<le> int (length (tokens corpus))"
proof -
  let ?ht = "insert_all sg inithashtable (tokens corpus)"
  from assms have h: "h \<in> set (ht_entries ?ht)" by (simp add: count_loop_table)
  have inv: "ht_inv sg ?ht" by (rule ht_inv_insert_all [OF ht_inv_init])
  from ht_inv_entry(3) [OF inv h] show "1 \<le> hcount h" .
  have "\<forall>x\<in>set (ht_entries ?ht). 0 \<le> hcount x"
    using ht_inv_entry(3) [OF inv] by fastforce
  from member_le_sum_list_int [OF this h]
  show "hcount h \<le> int (length (tokens corpus))"
    by (simp add: sum_insert_all ht_entries_init)
qed

lemma presort_snd: "snd (presort qs max_vocab vocab) = cutoff max_vocab (int (length vocab))"
  by (simp add: presort_def cutoff_def Let_def)

lemma presort_fst:
  "fst (presort qs max_vocab vocab) =
     (if cutoff max_vocab (int (length vocab)) < int (length vocab) then qs CompareVocab vocab
      else vocab)"
  by (simp add: presort_def cutoff_def Let_def)

lemma cutoff_bounds: "0 \<le> N \<Longrightarrow> 0 \<le> cutoff max_vocab N \<and> cutoff max_vocab N \<le> N"
  by (simp add: cutoff_def)

lemma rank_vocab_eq:
  "rank_vocab qs sg max_vocab vocab =
     (qs (CompareVocabTie sg)
         (take (nat (cutoff max_vocab (int (length vocab)))) (fst (presort qs max_vocab vocab)))
        @ drop (nat (cutoff max_vocab (int (length vocab)))) (fst (presort qs max_vocab vocab)),
      cutoff max_vocab (int (length vocab)))"
  by (simp add: rank_vocab_def split_beta presort_snd)

lemma emitted_eq:
  "emitted qs sg verbose max_vocab min_count corpus =
     takeWhile (\<lambda>v. \<not> vcount v < min_count)
       (take (nat (cutoff max_vocab (int (length (vocab_of sg corpus)))))
          (fst (rank_vocab qs sg max_vocab (vocab_of sg corpus))))"
proof -
  obtain vocab_hash i lg where
    c: "count_loop sg verbose (inithashtable, 0, []) corpus = (vocab_hash, i, lg)"
    by (cases "count_loop sg verbose (inithashtable, 0, []) corpus") auto
  from count_loop_table [of sg verbose "[]" corpus]
  have "migrate vocab_hash = vocab_of sg corpus"
    by (simp add: c vocab_of_def)
  then show ?thesis
    by (simp add: emitted_def c split_beta emit_loop_fst rank_vocab_eq)
qed

lemma qsort_contract_mset:
  "qsort_contract qs \<Longrightarrow> consistent_cmp cmp \<Longrightarrow> mset (qs cmp base) = mset base"
  by (simp add: qsort_contract_def)

lemma qsort_contract_sorted:
  "qsort_contract qs \<Longrightarrow> consistent_cmp cmp \<Longrightarrow> sorted_wrt (\<lambda>a b. cmp a b \<le> 0) (qs cmp base)"
  by (simp add: qsort_contract_def)

lemma qsort_contract_length:
  "qsort_contract qs \<Longrightarrow> consistent_cmp cmp \<Longrightarrow> length (qs cmp base) = length base"
  using qsort_contract_mset [of qs cmp base] by (metis size_mset)

lemma qsort_contract_set:
  "qsort_contract qs \<Longrightarrow> consistent_cmp cmp \<Longrightarrow> set (qs cmp base) = set base"
  using qsort_contract_mset [of qs cmp base] by (metis set_mset_mset)

lemma presort_mset:
  "qsort_contract qs \<Longrightarrow> mset (fst (presort qs max_vocab vocab)) = mset vocab"
  by (simp add: presort_fst qsort_contract_mset consistent_CompareVocab)

text \<open>With a \<open>qsort\<close> that keeps its contract, the first \<open>M\<close> entries after the two sorts
  are the sorted first \<open>M\<close> entries of the pre-sorted array.\<close>

lemma ranked_prefix:
  assumes "qsort_contract qs"
  shows "take (nat (cutoff max_vocab (int (length vocab)))) (fst (rank_vocab qs sg max_vocab vocab)) =
           qs (CompareVocabTie sg)
              (take (nat (cutoff max_vocab (int (length vocab)))) (fst (presort qs max_vocab vocab)))"
proof -
  let ?M = "nat (cutoff max_vocab (int (length vocab)))"
  let ?v1 = "fst (presort qs max_vocab vocab)"
  have "length ?v1 = length vocab"
    using presort_mset [OF assms, of max_vocab vocab] by (metis size_mset)
  moreover have "?M \<le> length vocab"
    using cutoff_bounds [of "int (length vocab)" max_vocab] by linarith
  ultimately have "length (qs (CompareVocabTie sg) (take ?M ?v1)) = ?M"
    by (simp add: qsort_contract_length [OF assms consistent_CompareVocabTie])
  then show ?thesis by (simp add: rank_vocab_eq)
qed

lemma ranked_subset:
  assumes "qsort_contract qs"
  shows "set (take (nat (cutoff max_vocab (int (length vocab)))) (fst (rank_vocab qs sg max_vocab vocab)))
           \<subseteq> set vocab"
proof -
  have "set (take (nat (cutoff max_vocab (int (length vocab)))) (fst (presort qs max_vocab vocab)))
          \<subseteq> set (fst (presort qs max_vocab vocab))"
    by (rule set_take_subset)
  also have "\<dots> = set vocab"
    using presort_mset [OF assms, of max_vocab vocab] by (metis set_mset_mset)
  finally show ?thesis
    by (simp add: ranked_prefix [OF assms] qsort_contract_set [OF assms consistent_CompareVocabTie])
qed

lemma ranked_distinct:
  assumes "qsort_contract qs" and "distinct (map word vocab)"
  shows "distinct (map word
           (take (nat (cutoff max_vocab (int (length vocab)))) (fst (rank_vocab qs sg max_vocab vocab))))"
proof -
  let ?M = "nat (cutoff max_vocab (int (length vocab)))"
  let ?v1 = "fst (presort qs max_vocab vocab)"
  have "mset (map word ?v1) = mset (map word vocab)"
    using presort_mset [OF assms(1), of max_vocab vocab] by (metis mset_map)
  then have "distinct (map word ?v1)"
    using assms(2) by (metis mset_eq_imp_distinct_iff)
  then have "distinct (map word (take ?M ?v1))"
    by (simp add: take_map [symmetric] del: take_map)
  moreover have "mset (map word (qs (CompareVocabTie sg) (take ?M ?v1))) = mset (map word (take ?M ?v1))"
    using qsort_contract_mset [OF assms(1) consistent_CompareVocabTie, of sg "take ?M ?v1"]
    by (metis mset_map)
  ultimately show ?thesis
    unfolding ranked_prefix [OF assms(1)] by (metis mset_eq_imp_distinct_iff)
qed

lemma ranked_sorted:
  assumes "qsort_contract qs"
  shows "sorted_wrt (\<lambda>a b. CompareVocabTie sg a b \<le> 0)
           (take (nat (cutoff max_vocab (int (length vocab)))) (fst (rank_vocab qs sg max_vocab vocab)))"
  unfolding ranked_prefix [OF assms]
  by (rule qsort_contract_sorted [OF assms consistent_CompareVocabTie])

section \<open>Reading tokens\<close>

lemma fscanf_s_Nil: "fscanf_s n [] = None"
  by (simp add: fscanf_s_def)

lemma fscanf_s_space: "isspace c \<Longrightarrow> fscanf_s n (c # fid) = fscanf_s n fid"
  by (simp add: fscanf_s_def)

lemma fscanf_s_word:
  assumes "w \<noteq> []" and "\<forall>c\<in>set w. \<not> isspace c" and "length w \<le> n"
    and "rest = [] \<or> isspace (hd rest)"
  shows "fscanf_s n (w @ rest) = Some (w, rest)"
proof -
  from assms(1,2) have "\<not> isspace (hd (w @ rest))" by (cases w) auto
  with assms(1) have d: "dropWhile isspace (w @ rest) = w @ rest" by (cases w) auto
  from assms(4) have "takeWhile (\<lambda>c. \<not> isspace c) rest = []" by (cases rest) auto
  with assms(2) have "takeWhile (\<lambda>c. \<not> isspace c) (w @ rest) = w"
    by (simp add: takeWhile_append2)
  with assms(1,3) show ?thesis
    by (simp add: fscanf_s_def d Let_def del: dropWhile_append)
qed

lemma fscanf_s_long:
  assumes "0 < n" and "n \<le> length r" and "\<forall>c\<in>set (take n r). \<not> isspace c"
  shows "fscanf_s n r = Some (take n r, drop n r)"
proof -
  from assms(1,2) have ne: "r \<noteq> []" by auto
  with assms(1,3) have "\<not> isspace (hd r)" by (cases r; cases n) auto
  with ne have d: "dropWhile isspace r = r" by (cases r) auto
  have "takeWhile (\<lambda>c. \<not> isspace c) (take n r @ drop n r) =
          take n r @ takeWhile (\<lambda>c. \<not> isspace c) (drop n r)"
    using assms(3) by (intro takeWhile_append2) blast
  then have "takeWhile (\<lambda>c. \<not> isspace c) r =
          take n r @ takeWhile (\<lambda>c. \<not> isspace c) (drop n r)"
    by simp
  then have "take n (takeWhile (\<lambda>c. \<not> isspace c) r) = take n r"
    using assms(2) by simp
  with ne assms(2) show ?thesis
    by (simp add: fscanf_s_def d Let_def)
qed

lemma tokens_Nil: "tokens [] = []"
  by (simp add: tokens_None fscanf_s_Nil)

lemma tokens_space: "isspace c \<Longrightarrow> tokens (c # fid) = tokens fid"
  by (subst tokens.simps, subst (2) tokens.simps) (simp add: fscanf_s_space)

lemma tokens_word:
  assumes "w \<noteq> []" and "\<forall>c\<in>set w. \<not> isspace c" and "length w \<le> MAX_STRING_LENGTH"
    and "rest = [] \<or> isspace (hd rest)"
  shows "tokens (w @ rest) = w # tokens rest"
  by (rule tokens_Some [OF fscanf_s_word [OF assms]])

lemma tokens_long:
  assumes "MAX_STRING_LENGTH \<le> length r" and "\<forall>c\<in>set (take MAX_STRING_LENGTH r). \<not> isspace c"
  shows "tokens r = take MAX_STRING_LENGTH r # tokens (drop MAX_STRING_LENGTH r)"
  by (rule tokens_Some [OF fscanf_s_long [OF _ assms]]) (simp add: MAX_STRING_LENGTH_def)

text \<open>The tokens of the corpus \<open>"a b a"\<close>.\<close>

lemma tokens_a_b_a: "tokens [97, 32, 98, 32, 97] = [[97], [98], [97]]"
proof -
  have "tokens ([97] @ [32, 98, 32, 97]) = [97] # tokens [32, 98, 32, 97]"
    by (rule tokens_word) (simp_all add: isspace_def MAX_STRING_LENGTH_def)
  moreover have "tokens (32 # [98, 32, 97]) = tokens [98, 32, 97]"
    by (rule tokens_space) (simp add: isspace_def)
  moreover have "tokens ([98] @ [32, 97]) = [98] # tokens [32, 97]"
    by (rule tokens_word) (simp_all add: isspace_def MAX_STRING_LENGTH_def)
  moreover have "tokens (32 # [97]) = tokens [97]"
    by (rule tokens_space) (simp add: isspace_def)
  moreover have "tokens ([97] @ []) = [97] # tokens []"
    by (rule tokens_word) (simp_all add: isspace_def MAX_STRING_LENGTH_def)
  ultimately show ?thesis by (simp add: tokens_Nil)
qed

section \<open>The array of entries and the uniqueness of words\<close>

lemma ht_words_dom: "set (map hword (ht_entries ht)) = dom (ht_count ht)"
  by (simp add: ht_count_def [abs_def] dom_map_of_conv_image_fst ht_pairs_def image_image)

lemma hashinsert_words:
  assumes "ht_inv sg ht"
  shows "set (map hword (ht_entries (hashinsert sg ht w))) =
           insert (c_str w) (set (map hword (ht_entries ht)))"
  unfolding ht_words_dom by (simp add: ht_count_hashinsert [OF assms])

lemma insert_all_words:
  assumes "ht_inv sg ht"
  shows "set (map hword (ht_entries (insert_all sg ht ws))) =
           set (map hword (ht_entries ht)) \<union> c_str ` set ws"
  using assms
proof (induction ws arbitrary: ht)
  case Nil
  then show ?case by (simp add: insert_all_def)
next
  case (Cons w ws)
  from Cons.IH [OF ht_inv_hashinsert [OF Cons.prems], of w] hashinsert_words [OF Cons.prems, of w]
  show ?case by (simp add: insert_all_def)
qed

text \<open>Two words that hash to the same bucket, and the chain they make: the second
  insertion of the later one moves its record to the front.\<close>

lemma hash_dp: "unat (bitwisehash True [100, 112] TSIZE SEED) = 550936"
  by (simp add: bitwisehash_def TSIZE_def SEED_def char_uint_def)

lemma hash_va: "unat (bitwisehash True [118, 97] TSIZE SEED) = 550936"
  by (simp add: bitwisehash_def TSIZE_def SEED_def char_uint_def)

lemma chain_dp_va:
  "insert_all True inithashtable [[100, 112], [118, 97]] =
     inithashtable(550936 := [\<lparr>hword = [100, 112], hcount = 1\<rparr>, \<lparr>hword = [118, 97], hcount = 1\<rparr>])"
  by (simp add: insert_all_def hashinsert_def hash_dp hash_va inithashtable_def Let_def
      c_str_Cons c_str_Nil char_int_def)

lemma chain_after:
  "hashinsert True (insert_all True inithashtable [[100, 112], [118, 97]]) [118, 97] =
     inithashtable(550936 := [\<lparr>hword = [118, 97], hcount = 2\<rparr>, \<lparr>hword = [100, 112], hcount = 1\<rparr>])"
  unfolding chain_dp_va
  by (simp add: hashinsert_def hash_va Let_def char_int_def)

theorem hashinsert_frame_witness:
  "ht_inv True (insert_all True inithashtable [[100, 112], [118, 97]]) \<and>
   insert_all True inithashtable [[100, 112], [118, 97]] 550936 =
     [\<lparr>hword = [100, 112], hcount = 1\<rparr>, \<lparr>hword = [118, 97], hcount = 1\<rparr>] \<and>
   hashinsert True (insert_all True inithashtable [[100, 112], [118, 97]]) [118, 97] 550936 =
     [\<lparr>hword = [118, 97], hcount = 2\<rparr>, \<lparr>hword = [100, 112], hcount = 1\<rparr>] \<and>
   ht_count (hashinsert True (insert_all True inithashtable [[100, 112], [118, 97]]) [118, 97])
     [118, 97] = Some 2 \<and>
   ht_count (hashinsert True (insert_all True inithashtable [[100, 112], [118, 97]]) [118, 97])
     [100, 112] = Some 1 \<and>
   ht_count (hashinsert True (insert_all True inithashtable [[100, 112], [118, 97]]) [118, 97])
     [120] = None \<and>
   set (map hword
     (ht_entries (hashinsert True (insert_all True inithashtable [[100, 112], [118, 97]]) [118, 97])))
     = {[100, 112], [118, 97]} \<and>
   length (ht_entries (hashinsert True (insert_all True inithashtable [[100, 112], [118, 97]]) [118, 97]))
     = 2"
proof -
  let ?T = "insert_all True inithashtable [[100, 112], [118, 97]]"
  have inv: "ht_inv True ?T" by (rule ht_inv_insert_all [OF ht_inv_init])
  have c: "ht_count ?T k =
      (if k \<in> c_str ` set [[100, 112], [118, 97]]
       then Some (int (count_list (map c_str [[100, 112], [118, 97]]) k)) else None)" for k
    by (rule ht_count_occurrences)
  have w: "set (map hword (ht_entries ?T)) = {[100, 112], [118, 97]}"
    using insert_all_words [OF ht_inv_init, of True "[[100, 112], [118, 97]]"]
    by (simp add: ht_entries_init c_str_Cons c_str_Nil)
  have l: "length (ht_entries ?T) = 2"
    using distinct_card [OF ht_inv_distinct [OF inv]] w by simp
  note f = hashinsert_frame [where sg = True and ht = ?T and w = "[118, 97]",
      THEN conjunct2, THEN conjunct2, rule_format, OF inv]
  have k: "c_str [118, 97] = [118, 97 :: cchar]" by (simp add: c_str_Cons c_str_Nil)
  from f have 1: "ht_count (hashinsert True ?T [118, 97]) [118, 97] = Some 2"
    unfolding k by (simp add: c c_str_Cons c_str_Nil)
  from f have "ht_count (hashinsert True ?T [118, 97]) u = ht_count ?T u" if "u \<noteq> [118, 97]" for u
    unfolding k using that by blast
  then have 2: "ht_count (hashinsert True ?T [118, 97]) [100, 112] = Some 1"
    and 3: "ht_count (hashinsert True ?T [118, 97]) [120] = None"
    by (simp_all add: c c_str_Cons c_str_Nil)
  from f have 4: "set (map hword (ht_entries (hashinsert True ?T [118, 97])))
      = {[100, 112], [118, 97]}"
    unfolding k w by blast
  from f have "length (ht_entries (hashinsert True ?T [118, 97])) =
      (if [118, 97] \<in> {[100, 112], [118, 97 :: cchar]} then 2 else 2 + 1)"
    unfolding k w l by blast
  then have 5: "length (ht_entries (hashinsert True ?T [118, 97])) = 2"
    by simp
  have 6: "?T 550936 = [\<lparr>hword = [100, 112], hcount = 1\<rparr>, \<lparr>hword = [118, 97], hcount = 1\<rparr>]"
    by (simp add: chain_dp_va)
  have 7: "hashinsert True ?T [118, 97] 550936 =
      [\<lparr>hword = [118, 97], hcount = 2\<rparr>, \<lparr>hword = [100, 112], hcount = 1\<rparr>]"
    by (simp add: chain_after)
  from inv 6 7 1 2 3 4 5 show ?thesis by (intro conjI)
qed

lemma word_migrate: "map word (migrate ht) = map hword (ht_entries ht)"
  by (simp add: migrate_entries comp_def)

lemma vocab_of_distinct: "distinct (map word (vocab_of sg corpus))"
  unfolding vocab_of_def word_migrate
  by (rule ht_inv_distinct [OF ht_inv_insert_all [OF ht_inv_init]])

lemma vocab_of_words: "set (map word (vocab_of sg corpus)) = c_str ` set (tokens corpus)"
  unfolding vocab_of_def word_migrate
  using insert_all_words [OF ht_inv_init, of sg "tokens corpus"]
  by (simp add: ht_entries_init)

lemma vocab_of_length: "length (vocab_of sg corpus) = card (c_str ` set (tokens corpus))"
  using distinct_card [OF vocab_of_distinct, of sg corpus]
  by (simp add: vocab_of_words del: set_map)

lemma vocab_of_entry:
  assumes "v \<in> set (vocab_of sg corpus)"
  shows "0 \<notin> set (word v)" and "1 \<le> vcount v"
proof -
  from assms obtain h where h: "h \<in> set (ht_entries (insert_all sg inithashtable (tokens corpus)))"
    and v: "v = \<lparr>word = hword h, vcount = hcount h\<rparr>"
    by (auto simp: vocab_of_def migrate_entries)
  note e = ht_inv_entry [OF ht_inv_insert_all [OF ht_inv_init] h]
  from e(2) show "0 \<notin> set (word v)" by (simp add: v)
  from e(3) show "1 \<le> vcount v" by (simp add: v)
qed

lemma vocab_of_pairs:
  "mset (map (\<lambda>v. (word v, vcount v)) (vocab_of sg corpus)) = mset (observe_all (tokens corpus))"
  by (simp add: vocab_of_def migrate_pairs mset_ht_pairs_insert_all)

lemma distinct_map_takeWhile: "distinct (map f xs) \<Longrightarrow> distinct (map f (takeWhile P xs))"
  by (induction xs) (auto dest: set_takeWhileD)

lemma emitted_distinct:
  assumes "qsort_contract qs"
  shows "distinct (map word (emitted qs sg verbose max_vocab min_count corpus))"
proof -
  let ?r = "take (nat (cutoff max_vocab (int (length (vocab_of sg corpus)))))
              (fst (rank_vocab qs sg max_vocab (vocab_of sg corpus)))"
  have "distinct (map word ?r)"
    by (rule ranked_distinct [OF assms vocab_of_distinct])
  then have "distinct (map word (takeWhile (\<lambda>v. \<not> vcount v < min_count) ?r))"
    by (rule distinct_map_takeWhile)
  then show ?thesis by (simp only: emitted_eq)
qed

text \<open>
  Claim C5 (uniqueness). \<open>hashinsert\<close> preserves the invariant of the table, under which
  no word has two records; so after any sequence of tokens, and when the counting loop is
  over, the words of the table are pairwise distinct, and with a \<open>qsort\<close> that keeps its
  contract every word is printed at most once.
\<close>

theorem uniqueness:
  "(ht_inv sg ht \<longrightarrow>
      ht_inv sg (hashinsert sg ht w) \<and> distinct (map hword (ht_entries (hashinsert sg ht w)))) \<and>
   ht_inv sg (insert_all sg inithashtable ws) \<and>
   distinct (map hword (ht_entries (insert_all sg inithashtable ws))) \<and>
   distinct (map hword (ht_entries (fst (count_loop sg verbose (inithashtable, 0, lg) corpus)))) \<and>
   (qsort_contract qs \<longrightarrow>
      distinct (map word (emitted qs sg verbose max_vocab min_count corpus)))"
proof -
  have "ht_inv sg (insert_all sg inithashtable xs)" for xs
    by (rule ht_inv_insert_all [OF ht_inv_init])
  then show ?thesis
    by (auto simp: count_loop_table intro: ht_inv_hashinsert ht_inv_distinct emitted_distinct)
qed

theorem uniqueness_witness:
  "ht_inv True inithashtable \<and> qsort_contract insertion_qsort \<and>
   ht_inv True (hashinsert True inithashtable [97]) \<and>
   distinct (map hword (ht_entries (hashinsert True inithashtable [97]))) \<and>
   distinct (map word (emitted insertion_qsort True 2 0 1 [97, 32, 98, 32, 97]))"
  using uniqueness [of True inithashtable "[97]" "[]" 2 "[]" "[97, 32, 98, 32, 97]" insertion_qsort 0 1]
  by (simp add: ht_inv_init insertion_qsort_contract)

section \<open>The size limit\<close>

lemma cutoff_le_max: "0 \<le> N \<Longrightarrow> 0 < max_vocab \<Longrightarrow> cutoff max_vocab N \<le> max_vocab"
  by (simp add: cutoff_def)

lemma emitted_length: "int (length (emitted qs sg verbose max_vocab min_count corpus))
    \<le> cutoff max_vocab (int (length (vocab_of sg corpus)))"
proof -
  let ?M = "cutoff max_vocab (int (length (vocab_of sg corpus)))"
  let ?r = "take (nat ?M) (fst (rank_vocab qs sg max_vocab (vocab_of sg corpus)))"
  have "length (emitted qs sg verbose max_vocab min_count corpus) \<le> length ?r"
    unfolding emitted_eq by (rule length_takeWhile_le)
  also have "\<dots> \<le> nat ?M" by simp
  finally show ?thesis
    using cutoff_bounds [of "int (length (vocab_of sg corpus))" max_vocab] by linarith
qed

text \<open>
  Claim C2 (size limit). With \<open>N\<close> the number of entries migrated from the table, which
  is the number of distinct tokens, the value \<open>max_vocab\<close> has after line 163 is
  \<open>M = max_vocab\<close> if \<open>0 < max_vocab < N\<close> and \<open>M = N\<close> otherwise; the pre-sort of the
  whole array with \<open>CompareVocab\<close> is done exactly when \<open>M < N\<close>, and then the first \<open>M\<close>
  entries are sorted with \<open>CompareVocabTie\<close>; at most \<open>M\<close> entries are printed, hence at
  most \<open>max_vocab\<close> when \<open>max_vocab > 0\<close>; and \<open>max_vocab = 0\<close> gives \<open>M = N\<close>. With a
  \<open>qsort\<close> that keeps its contract the pre-sort permutes the array into falling counts.
\<close>

theorem size_limit:
  "(let vocab = vocab_of sg corpus;
        N = int (length vocab);
        M = (if max_vocab > 0 \<and> max_vocab < N then max_vocab else N)
    in N = int (card (c_str ` set (tokens corpus))) \<and>
       presort qs max_vocab vocab = (if M < N then qs CompareVocab vocab else vocab, M) \<and>
       rank_vocab qs sg max_vocab vocab =
         (qs (CompareVocabTie sg) (take (nat M) (if M < N then qs CompareVocab vocab else vocab))
            @ drop (nat M) (if M < N then qs CompareVocab vocab else vocab), M) \<and>
       int (length (emitted qs sg verbose max_vocab min_count corpus)) \<le> M \<and>
       (max_vocab > 0 \<longrightarrow>
          int (length (emitted qs sg verbose max_vocab min_count corpus)) \<le> max_vocab) \<and>
       (max_vocab = 0 \<longrightarrow> M = N) \<and>
       (qsort_contract qs \<longrightarrow>
          mset (qs CompareVocab vocab) = mset vocab \<and>
          sorted_wrt (\<lambda>a b. vcount b \<le> vcount a) (qs CompareVocab vocab)))"
proof -
  let ?N = "int (length (vocab_of sg corpus))"
  have p: "presort qs max_vocab (vocab_of sg corpus) =
             (if cutoff max_vocab ?N < ?N then qs CompareVocab (vocab_of sg corpus)
              else vocab_of sg corpus, cutoff max_vocab ?N)"
    by (simp add: prod_eq_iff presort_fst presort_snd)
  have r: "rank_vocab qs sg max_vocab (vocab_of sg corpus) =
         (qs (CompareVocabTie sg)
             (take (nat (cutoff max_vocab ?N))
                (if cutoff max_vocab ?N < ?N then qs CompareVocab (vocab_of sg corpus)
                 else vocab_of sg corpus))
            @ drop (nat (cutoff max_vocab ?N))
                (if cutoff max_vocab ?N < ?N then qs CompareVocab (vocab_of sg corpus)
                 else vocab_of sg corpus), cutoff max_vocab ?N)"
    by (simp only: rank_vocab_eq presort_fst)
  have l: "int (length (emitted qs sg verbose max_vocab min_count corpus)) \<le> cutoff max_vocab ?N"
    by (rule emitted_length)
  have m: "int (length (emitted qs sg verbose max_vocab min_count corpus)) \<le> max_vocab"
    if "max_vocab > 0"
    using l cutoff_le_max [of ?N max_vocab] that by simp
  have c: "cutoff max_vocab ?N = (if max_vocab > 0 \<and> max_vocab < ?N then max_vocab else ?N)"
    by (simp add: cutoff_def)
  have s: "mset (qs CompareVocab (vocab_of sg corpus)) = mset (vocab_of sg corpus) \<and>
          sorted_wrt (\<lambda>a b. vcount b \<le> vcount a) (qs CompareVocab (vocab_of sg corpus))"
    if "qsort_contract qs"
    using qsort_contract_mset [OF that consistent_CompareVocab, of "vocab_of sg corpus"]
      qsort_contract_sorted [OF that consistent_CompareVocab, of "vocab_of sg corpus"]
    by (simp add: CompareVocab_le_iff)
  show ?thesis
    unfolding Let_def c [symmetric]
    using p r l m s by (simp add: vocab_of_length cutoff_def)
qed

theorem size_limit_witness:
  "qsort_contract insertion_qsort \<and>
   int (length (vocab_of False [97, 32, 98, 32, 97])) = 2 \<and>
   presort insertion_qsort 1 (vocab_of False [97, 32, 98, 32, 97]) =
     (insertion_qsort CompareVocab (vocab_of False [97, 32, 98, 32, 97]), 1) \<and>
   int (length (emitted insertion_qsort False 2 1 1 [97, 32, 98, 32, 97])) \<le> 1 \<and>
   sorted_wrt (\<lambda>a b. vcount b \<le> vcount a)
     (insertion_qsort CompareVocab (vocab_of False [97, 32, 98, 32, 97]))"
proof -
  have "c_str ` set (tokens [97, 32, 98, 32, 97]) = {[97], [98]}"
    by (auto simp: tokens_a_b_a c_str_Cons c_str_Nil)
  then have n: "int (length (vocab_of False [97, 32, 98, 32, 97])) = 2"
    by (simp add: vocab_of_length)
  from size_limit [of False "[97, 32, 98, 32, 97]" 1 insertion_qsort 2 1]
  show ?thesis
    unfolding Let_def n by (simp add: insertion_qsort_contract)
qed

section \<open>The output loop, verbosity and the streams\<close>

lemma takeWhile_stop:
  "length (takeWhile P xs) < length xs \<Longrightarrow> \<not> P (xs ! length (takeWhile P xs))"
  by (rule nth_length_takeWhile)

lemma takeWhile_all: "(\<And>x. x \<in> set xs \<Longrightarrow> P x) \<Longrightarrow> takeWhile P xs = xs"
  by (simp add: takeWhile_eq_all_conv)

lemma ranked_counts:
  assumes "qsort_contract qs"
    and "v \<in> set (take (nat (cutoff max_vocab (int (length (vocab_of sg corpus)))))
                      (fst (rank_vocab qs sg max_vocab (vocab_of sg corpus))))"
  shows "1 \<le> vcount v"
  using ranked_subset [OF assms(1), of max_vocab "vocab_of sg corpus" sg] assms(2)
  by (auto intro: vocab_of_entry(2))

text \<open>
  Claim C3 (minimum count). For every array \<open>ranked\<close> the output loop prints the entries
  before the first one whose count is below \<open>min_count\<close> and nothing from that entry on:
  every printed entry has a count of at least \<open>min_count\<close>, and if the loop stops early
  the entry it stops at has a smaller count. When every count is at least 1 and
  \<open>min_count \<le> 1\<close>, nothing is left out. In \<open>get_counts\<close> the loop runs over the first
  \<open>M\<close> entries of the sorted array, whose counts are all at least 1, so there
  \<open>min_count \<le> 1\<close> leaves nothing out.
\<close>

theorem min_count_truncation:
  assumes "qsort_contract qs"
  shows "fst (emit_loop min_count ranked) = takeWhile (\<lambda>v. min_count \<le> vcount v) ranked \<and>
         fst (emit_loop min_count ranked) = take (length (fst (emit_loop min_count ranked))) ranked \<and>
         (\<forall>v\<in>set (fst (emit_loop min_count ranked)). min_count \<le> vcount v) \<and>
         (length (fst (emit_loop min_count ranked)) < length ranked \<longrightarrow>
            vcount (ranked ! length (fst (emit_loop min_count ranked))) < min_count) \<and>
         ((\<forall>v\<in>set ranked. 1 \<le> vcount v) \<longrightarrow> min_count \<le> 1 \<longrightarrow>
            fst (emit_loop min_count ranked) = ranked) \<and>
         (let M = cutoff max_vocab (int (length (vocab_of sg corpus)));
              sorted = take (nat M) (fst (rank_vocab qs sg max_vocab (vocab_of sg corpus)))
          in emitted qs sg verbose max_vocab min_count corpus = fst (emit_loop min_count sorted) \<and>
             (\<forall>v\<in>set sorted. 1 \<le> vcount v) \<and>
             (min_count \<le> 1 \<longrightarrow> emitted qs sg verbose max_vocab min_count corpus = sorted))"
proof -
  let ?P = "\<lambda>v. min_count \<le> vcount v"
  have e: "fst (emit_loop min_count xs) = takeWhile ?P xs" for xs
    by (simp add: emit_loop_fst not_less)
  have 1: "takeWhile ?P ranked = take (length (takeWhile ?P ranked)) ranked"
    by (rule takeWhile_eq_take)
  have 2: "\<forall>v\<in>set (takeWhile ?P ranked). min_count \<le> vcount v"
    by (auto dest: set_takeWhileD)
  have 3: "vcount (ranked ! length (takeWhile ?P ranked)) < min_count"
    if "length (takeWhile ?P ranked) < length ranked"
    using takeWhile_stop [OF that] by simp
  have 4: "takeWhile ?P xs = xs" if "\<forall>v\<in>set xs. 1 \<le> vcount v" and "min_count \<le> 1" for xs
    using that by (intro takeWhile_all) fastforce
  let ?s = "take (nat (cutoff max_vocab (int (length (vocab_of sg corpus)))))
              (fst (rank_vocab qs sg max_vocab (vocab_of sg corpus)))"
  have 5: "emitted qs sg verbose max_vocab min_count corpus = takeWhile ?P ?s"
    by (simp add: emitted_eq not_less)
  have 6: "\<forall>v\<in>set ?s. 1 \<le> vcount v"
    using ranked_counts [OF assms] by blast
  show ?thesis
    unfolding Let_def e
    using 1 2 3 4 [of ranked] 4 [OF 6] 5 6 by auto
qed

theorem min_count_truncation_witness:
  "qsort_contract insertion_qsort \<and>
   fst (emit_loop 2 [\<lparr>word = [97], vcount = 2\<rparr>, \<lparr>word = [98], vcount = 1\<rparr>])
     = [\<lparr>word = [97], vcount = 2\<rparr>] \<and>
   vcount ([\<lparr>word = [97], vcount = 2\<rparr>, \<lparr>word = [98], vcount = 1\<rparr>] ! 1) < 2 \<and>
   fst (emit_loop 1 [\<lparr>word = [97], vcount = 2\<rparr>, \<lparr>word = [98], vcount = 1\<rparr>])
     = [\<lparr>word = [97], vcount = 2\<rparr>, \<lparr>word = [98], vcount = 1\<rparr>] \<and>
   emitted insertion_qsort False 2 0 1 [97, 32, 98, 32, 97] =
     take (nat (cutoff 0 (int (length (vocab_of False [97, 32, 98, 32, 97])))))
       (fst (rank_vocab insertion_qsort False 0 (vocab_of False [97, 32, 98, 32, 97])))"
proof -
  let ?ranked = "[\<lparr>word = [97], vcount = 2\<rparr>, \<lparr>word = [98], vcount = 1\<rparr>]"
  let ?corpus = "[97, 32, 98, 32, 97] :: cchar list"
  note t2 = min_count_truncation [OF insertion_qsort_contract, of 2 ?ranked 0 False ?corpus 2]
  note t1 = min_count_truncation [OF insertion_qsort_contract, of 1 ?ranked 0 False ?corpus 2]
  from t2 have a: "fst (emit_loop 2 ?ranked) = [\<lparr>word = [97], vcount = 2\<rparr>]"
    by simp
  from t2 have b: "vcount (?ranked ! 1) < 2"
    by simp
  from t1 have c: "fst (emit_loop 1 ?ranked) = ?ranked"
    by simp
  from t1 have d: "emitted insertion_qsort False 2 0 1 ?corpus =
     take (nat (cutoff 0 (int (length (vocab_of False ?corpus)))))
       (fst (rank_vocab insertion_qsort False 0 (vocab_of False ?corpus)))"
    unfolding Let_def by (elim conjE) simp
  from a b c d show ?thesis by (simp only: insertion_qsort_contract simp_thms)
qed

lemma fout_get_counts_streams:
  "fout (get_counts_streams qs sg verbose max_vocab min_count corpus) =
     concat (map fprintf_entry (emitted qs sg verbose max_vocab min_count corpus))"
proof -
  let ?lg0 = "Building_vocabulary # (if verbose > 1 then [Processed_tokens 0] else [])"
  obtain vocab_hash i lg where
    c: "count_loop sg verbose (inithashtable, 0, ?lg0) corpus = (vocab_hash, i, lg)"
    by (cases "count_loop sg verbose (inithashtable, 0, ?lg0) corpus") auto
  from count_loop_table [of sg verbose ?lg0 corpus]
  have "migrate vocab_hash = vocab_of sg corpus"
    by (simp add: c vocab_of_def)
  then show ?thesis
    by (simp add: get_counts_streams_def Let_def c split_beta emitted_eq emit_loop_fst rank_vocab_eq)
qed

lemma emitted_verbose:
  "emitted qs sg v1 max_vocab min_count corpus = emitted qs sg v2 max_vocab min_count corpus"
  by (simp only: emitted_eq)

text \<open>
  Claim C8 (verbosity). The bytes written to the output file, and the entries they print,
  are the same for any two values of \<open>verbose\<close>, everything else being equal; this holds
  of \<open>get_counts\<close> on open streams and of \<open>vocab_count\<close> whatever the files.
\<close>

theorem verbosity_independent:
  "fout (get_counts_streams qs sg v1 max_vocab min_count corpus) =
     fout (get_counts_streams qs sg v2 max_vocab min_count corpus) \<and>
   emitted qs sg v1 max_vocab min_count corpus = emitted qs sg v2 max_vocab min_count corpus \<and>
   output_of (vocab_count qs sg fs v1 max_vocab min_count) =
     output_of (vocab_count qs sg fs v2 max_vocab min_count)"
proof -
  have "fout (get_counts_streams qs sg v1 max_vocab min_count c) =
          fout (get_counts_streams qs sg v2 max_vocab min_count c)" for c
    by (simp only: fout_get_counts_streams emitted_verbose [of qs sg v1 max_vocab min_count c v2])
  then show ?thesis
    by (auto simp: vocab_count_def get_counts_def emitted_verbose [of qs sg v1 max_vocab min_count corpus v2]
        split: option.splits)
qed

text \<open>
  Claim C9 (fatal conditions). When the log file cannot be opened, \<open>vocab_count\<close> exits
  with status 1 before \<open>get_counts\<close> is called. When the log file is open but the corpus
  or the output file is not, nothing tests the \<open>NULL\<close> stream: \<open>get_counts\<close> is called and
  hands it to the C library, which is undefined behaviour and not an abort the program
  decides on.
\<close>

theorem unopened_streams:
  "vocab_count qs sg \<lparr>corpus_file = c, output_file = out, log_file = False\<rparr> v mx mn = Exit 1 \<and>
   vocab_count qs sg \<lparr>corpus_file = None, output_file = True, log_file = True\<rparr> v mx mn
     = Undefined \<and>
   vocab_count qs sg \<lparr>corpus_file = Some corpus, output_file = False, log_file = True\<rparr> v mx mn
     = Undefined"
  by (simp add: vocab_count_def get_counts_def)

section \<open>Runs longer than the field width\<close>

lemma fscanf_s_append_space:
  assumes "isspace sp"
  shows "fscanf_s n (pre @ sp # post) =
           (case fscanf_s n pre of
              None \<Rightarrow> fscanf_s n post
            | Some (str, pre') \<Rightarrow> Some (str, pre' @ sp # post))"
proof (cases "dropWhile isspace pre = []")
  case True
  then have "\<forall>c\<in>set pre. isspace c" by (simp add: dropWhile_eq_Nil_conv)
  then have "dropWhile isspace (pre @ sp # post) = dropWhile isspace post"
    using assms by (simp add: dropWhile_append2)
  with True show ?thesis by (simp add: fscanf_s_def del: dropWhile_eq_Nil_conv)
next
  case False
  let ?d = "dropWhile isspace pre"
  let ?t = "takeWhile (\<lambda>c. \<not> isspace c) ?d"
  from False have d: "dropWhile isspace (pre @ sp # post) = ?d @ sp # post"
    by (auto simp: dropWhile_append dropWhile_eq_Nil_conv)
  have t: "takeWhile (\<lambda>c. \<not> isspace c) (?d @ sp # post) = ?t"
  proof (cases "\<forall>x\<in>set ?d. \<not> isspace x")
    case True
    then have a: "?t = ?d" by (simp add: takeWhile_eq_all_conv)
    have "takeWhile (\<lambda>c. \<not> isspace c) (?d @ sp # post) =
        ?d @ takeWhile (\<lambda>c. \<not> isspace c) (sp # post)"
      using True by (intro takeWhile_append2) blast
    also have "takeWhile (\<lambda>c. \<not> isspace c) (sp # post) = []"
      using assms by simp
    finally show ?thesis by (simp only: a append_Nil2)
  next
    case False
    then obtain x where "x \<in> set ?d" and "\<not> \<not> isspace x" by blast
    then show ?thesis by (rule takeWhile_append1)
  qed
  have "length (take n ?t) \<le> length ?d"
    using length_takeWhile_le [of "\<lambda>c. \<not> isspace c" ?d] by simp
  then have "drop (length (take n ?t)) (?d @ sp # post) = drop (length (take n ?t)) ?d @ sp # post"
    by simp
  with False show ?thesis
    by (simp add: fscanf_s_def d t Let_def del: dropWhile_eq_Nil_conv dropWhile_append length_take)
qed

lemma tokens_append_space:
  assumes "isspace sp"
  shows "tokens (pre @ sp # post) = tokens pre @ tokens post"
proof (induction pre rule: tokens.induct)
  case (1 fid)
  show ?case
  proof (cases "fscanf_s MAX_STRING_LENGTH fid")
    case None
    then have "fscanf_s MAX_STRING_LENGTH (fid @ sp # post) = fscanf_s MAX_STRING_LENGTH post"
      by (simp add: fscanf_s_append_space [OF assms])
    then have "tokens (fid @ sp # post) = tokens post"
      by (subst tokens.simps, subst (2) tokens.simps) simp
    with None show ?thesis by (simp add: tokens_None)
  next
    case (Some p)
    obtain str fid' where p: "p = (str, fid')" by (cases p)
    from Some p have "fscanf_s MAX_STRING_LENGTH (fid @ sp # post) = Some (str, fid' @ sp # post)"
      by (simp add: fscanf_s_append_space [OF assms])
    then have "tokens (fid @ sp # post) = str # tokens (fid' @ sp # post)"
      by (rule tokens_Some)
    with "1.IH" [OF Some p [symmetric]] Some p show ?thesis
      by (simp add: tokens_Some)
  qed
qed

lemma pieces_Nil: "pieces n [] = []"
  by simp

lemma pieces_short: "r \<noteq> [] \<Longrightarrow> length r \<le> n \<Longrightarrow> pieces n r = [r]"
  by (cases n) auto

lemma pieces_long: "0 < n \<Longrightarrow> n < length r \<Longrightarrow> pieces n r = take n r # pieces n (drop n r)"
  by (cases r) auto

declare pieces.simps [simp del]

lemma concat_pieces: "0 < n \<Longrightarrow> concat (pieces n r) = r"
  by (induction n r rule: pieces.induct) (subst pieces.simps, simp)

lemma length_pieces: "0 < n \<Longrightarrow> length (pieces n r) = (length r + n - 1) div n"
proof (induction n r rule: pieces.induct)
  case (1 n r)
  show ?case
  proof (cases "r = []")
    case True
    with "1.prems" show ?thesis by (simp add: pieces_Nil)
  next
    case False
    with "1.prems" have l: "length (pieces n (drop n r)) = (length r - n + n - 1) div n"
      using "1.IH" by simp
    show ?thesis
    proof (cases "length r \<le> n")
      case True
      with False "1.prems" have "(length r + n - 1) div n = 1"
        by (cases r) (auto simp: div_eq_0_iff Suc_le_eq intro!: div_nat_eqI)
      with True False show ?thesis by (simp add: pieces_short)
    next
      case False
      then have "(length r + n - 1) div n = Suc ((length r - 1) div n)"
        using "1.prems" by (metis Nat.add_diff_assoc2 Suc_eq_plus1 div_add_self2 less_le_not_le
            less_one linorder_not_le nat_less_le not_less_eq_eq One_nat_def)
      with False l "1.prems" show ?thesis by (simp add: pieces_long)
    qed
  qed
qed

lemma pieces_bounded: "p \<in> set (pieces n r) \<Longrightarrow> length p \<le> n \<and> p \<noteq> []"
proof (induction n r rule: pieces.induct)
  case (1 n r)
  then show ?case
    by (subst (asm) (2) pieces.simps) (auto split: if_splits)
qed

lemma tokens_run:
  assumes "\<forall>c\<in>set r. \<not> isspace c" and "rest = [] \<or> isspace (hd rest)"
  shows "tokens (r @ rest) = pieces MAX_STRING_LENGTH r @ tokens rest"
  using assms(1)
proof (induction "length r" arbitrary: r rule: less_induct)
  case less
  have m: "0 < MAX_STRING_LENGTH" by (simp add: MAX_STRING_LENGTH_def)
  show ?case
  proof (cases "r = []")
    case True
    then show ?thesis by (simp add: pieces_Nil)
  next
    case False
    show ?thesis
    proof (cases "length r \<le> MAX_STRING_LENGTH")
      case True
      from tokens_word [OF False less.prems True assms(2)]
      show ?thesis by (simp add: pieces_short [OF False True])
    next
      case False
      then have l: "MAX_STRING_LENGTH < length r" by simp
      have "\<forall>c\<in>set (take MAX_STRING_LENGTH (r @ rest)). \<not> isspace c"
        using less.prems l by (auto dest: in_set_takeD)
      from tokens_long [OF _ this] l
      have "tokens (r @ rest) = take MAX_STRING_LENGTH r # tokens (drop MAX_STRING_LENGTH r @ rest)"
        by simp
      moreover have "tokens (drop MAX_STRING_LENGTH r @ rest) =
          pieces MAX_STRING_LENGTH (drop MAX_STRING_LENGTH r) @ tokens rest"
        using less.prems l m by (intro less.hyps) (auto dest: in_set_dropD)
      ultimately show ?thesis by (simp add: pieces_long [OF m l])
    qed
  qed
qed

section \<open>Over-long runs in the corpus\<close>

lemma count_loop_i:
  "fst (snd (count_loop sg verbose (inithashtable, 0, lg) corpus)) = int (length (tokens corpus))"
  using count_loop_tokens [of sg verbose inithashtable 0 lg corpus] by simp

lemma tokens_delimited_run:
  assumes "\<forall>c\<in>set r. \<not> isspace c" and "pre = [] \<or> isspace (last pre)"
    and "rest = [] \<or> isspace (hd rest)"
  shows "tokens (pre @ r @ rest) = tokens pre @ pieces MAX_STRING_LENGTH r @ tokens rest"
proof (cases "pre = []")
  case True
  then show ?thesis by (simp add: tokens_Nil tokens_run [OF assms(1,3)])
next
  case False
  then obtain p sp where pre: "pre = p @ [sp]" by (cases pre rule: rev_cases) auto
  with assms(2) have sp: "isspace sp" by simp
  have "tokens (p @ sp # (r @ rest)) = tokens p @ tokens (r @ rest)"
    by (rule tokens_append_space [OF sp])
  moreover have "tokens (p @ sp # []) = tokens p @ tokens []"
    by (rule tokens_append_space [OF sp])
  ultimately show ?thesis
    by (simp add: pre tokens_Nil tokens_run [OF assms(1,3)])
qed

lemma pieces_full:
  assumes "0 < n"
  shows "p \<in> set (butlast (pieces n r)) \<Longrightarrow> length p = n"
proof (induction "length r" arbitrary: r rule: less_induct)
  case less
  show ?case
  proof (cases "n < length r")
    case False
    then have "pieces n r = [] \<or> pieces n r = [r]"
      by (cases "r = []") (simp_all add: pieces_Nil pieces_short)
    with less.prems show ?thesis by auto
  next
    case True
    from pieces_long [OF assms True] less.prems
    have "p = take n r \<or> p \<in> set (butlast (pieces n (drop n r)))"
      by (auto split: if_splits)
    moreover have "length (take n r) = n" using True by simp
    moreover have "length (drop n r) < length r" using True assms by simp
    ultimately show ?thesis using less.hyps [of "drop n r"] by blast
  qed
qed

lemma pieces_two:
  assumes "MAX_STRING_LENGTH < length r"
  shows "2 \<le> length (pieces MAX_STRING_LENGTH r)"
proof -
  have m: "0 < MAX_STRING_LENGTH" by (simp add: MAX_STRING_LENGTH_def)
  from assms have "drop MAX_STRING_LENGTH r \<noteq> []" by simp
  then have "pieces MAX_STRING_LENGTH (drop MAX_STRING_LENGTH r) \<noteq> []"
    using m by (subst pieces.simps) simp
  then show ?thesis
    by (cases "pieces MAX_STRING_LENGTH (drop MAX_STRING_LENGTH r)")
       (simp_all add: pieces_long [OF m assms])
qed

lemma count_loop_ht_count:
  "ht_count (fst (count_loop sg verbose (inithashtable, 0, lg) corpus)) k =
     (if k \<in> c_str ` set (tokens corpus)
      then Some (int (count_list (map c_str (tokens corpus)) k)) else None)"
  by (simp only: count_loop_table ht_count_occurrences)

lemma tokens_second_run:
  assumes "isspace sp" and "mid = [] \<or> isspace (last mid)" and "\<forall>c\<in>set r2. \<not> isspace c"
    and "rest2 = [] \<or> isspace (hd rest2)"
  shows "tokens (sp # mid @ r2 @ rest2) = tokens mid @ pieces MAX_STRING_LENGTH r2 @ tokens rest2"
  using tokens_space [OF assms(1), of "mid @ r2 @ rest2"] tokens_delimited_run [OF assms(3,2,4)]
  by simp

text \<open>
  Claim C6, as the code has it. A run of bytes that are not white space, delimited by
  white space or by the ends of the corpus, is read as the successive pieces of at most
  \<open>MAX_STRING_LENGTH\<close> bytes that make it up, each a token of its own and each counted in
  \<open>i\<close>: \<open>\<lceil>length r / 1000\<rceil>\<close> tokens, all but the last of exactly
  \<open>MAX_STRING_LENGTH\<close> bytes. A run longer than 1000 bytes gives its first
  1000 bytes as one token and at least one more token for the rest. When the loop is over
  the table holds, for every word, the number of tokens read whose C string is that word,
  the pieces of the run included. If a second run longer than 1000 bytes follows that
  starts with the same 1000 bytes, these bytes are a token of both runs, so the one
  record of their word has a count of at least 2.
\<close>

theorem long_runs_are_split:
  assumes "\<forall>c\<in>set r. \<not> isspace c" and "pre = [] \<or> isspace (last pre)"
    and "rest = [] \<or> isspace (hd rest)"
  shows "tokens (pre @ r @ rest) = tokens pre @ pieces MAX_STRING_LENGTH r @ tokens rest \<and>
         concat (pieces MAX_STRING_LENGTH r) = r \<and>
         (\<forall>p\<in>set (pieces MAX_STRING_LENGTH r). length p \<le> MAX_STRING_LENGTH) \<and>
         (\<forall>p\<in>set (butlast (pieces MAX_STRING_LENGTH r)). length p = MAX_STRING_LENGTH) \<and>
         length (pieces MAX_STRING_LENGTH r) =
           (length r + MAX_STRING_LENGTH - 1) div MAX_STRING_LENGTH \<and>
         (MAX_STRING_LENGTH < length r \<longrightarrow>
            pieces MAX_STRING_LENGTH r =
              take MAX_STRING_LENGTH r # pieces MAX_STRING_LENGTH (drop MAX_STRING_LENGTH r) \<and>
            2 \<le> length (pieces MAX_STRING_LENGTH r)) \<and>
         fst (snd (count_loop sg verbose (inithashtable, 0, lg) (pre @ r @ rest))) =
           int (length (tokens pre)) + int (length (pieces MAX_STRING_LENGTH r))
             + int (length (tokens rest)) \<and>
         (\<forall>k. ht_count (fst (count_loop sg verbose (inithashtable, 0, lg) (pre @ r @ rest))) k =
            (if k \<in> c_str ` set (tokens pre @ pieces MAX_STRING_LENGTH r @ tokens rest)
             then Some (int (count_list
                    (map c_str (tokens pre @ pieces MAX_STRING_LENGTH r @ tokens rest)) k))
             else None)) \<and>
         (rest = sp # mid @ r2 @ rest2 \<and> isspace sp \<and> (mid = [] \<or> isspace (last mid)) \<and>
          (\<forall>c\<in>set r2. \<not> isspace c) \<and> (rest2 = [] \<or> isspace (hd rest2)) \<and>
          MAX_STRING_LENGTH < length r \<and> MAX_STRING_LENGTH < length r2 \<and>
          take MAX_STRING_LENGTH r2 = take MAX_STRING_LENGTH r \<longrightarrow>
            tokens rest = tokens mid @ pieces MAX_STRING_LENGTH r2 @ tokens rest2 \<and>
            hd (pieces MAX_STRING_LENGTH r) = take MAX_STRING_LENGTH r \<and>
            hd (pieces MAX_STRING_LENGTH r2) = take MAX_STRING_LENGTH r \<and>
            (\<exists>n\<ge>2. ht_count (fst (count_loop sg verbose (inithashtable, 0, lg) (pre @ r @ rest)))
                      (c_str (take MAX_STRING_LENGTH r)) = Some n))"
proof -
  have m: "0 < MAX_STRING_LENGTH" by (simp add: MAX_STRING_LENGTH_def)
  let ?toks = "tokens pre @ pieces MAX_STRING_LENGTH r @ tokens rest"
  let ?table = "fst (count_loop sg verbose (inithashtable, 0, lg) (pre @ r @ rest))"
  note t = tokens_delimited_run [OF assms]
  have two: "MAX_STRING_LENGTH < length r \<longrightarrow>
            pieces MAX_STRING_LENGTH r =
              take MAX_STRING_LENGTH r # pieces MAX_STRING_LENGTH (drop MAX_STRING_LENGTH r) \<and>
            2 \<le> length (pieces MAX_STRING_LENGTH r)"
    using pieces_long [OF m, of r] pieces_two [of r] by blast
  have b: "\<forall>p\<in>set (pieces MAX_STRING_LENGTH r). length p \<le> MAX_STRING_LENGTH"
    using pieces_bounded [of _ MAX_STRING_LENGTH r] by blast
  have f: "\<forall>p\<in>set (butlast (pieces MAX_STRING_LENGTH r)). length p = MAX_STRING_LENGTH"
    using pieces_full [OF m, of _ r] by blast
  have i: "fst (snd (count_loop sg verbose (inithashtable, 0, lg) (pre @ r @ rest))) =
           int (length (tokens pre)) + int (length (pieces MAX_STRING_LENGTH r))
             + int (length (tokens rest))"
    by (simp only: count_loop_i t) simp
  have c: "\<forall>k. ht_count ?table k =
            (if k \<in> c_str ` set ?toks then Some (int (count_list (map c_str ?toks) k)) else None)"
    by (simp only: count_loop_ht_count t) simp
  have s: "tokens rest = tokens mid @ pieces MAX_STRING_LENGTH r2 @ tokens rest2 \<and>
            hd (pieces MAX_STRING_LENGTH r) = take MAX_STRING_LENGTH r \<and>
            hd (pieces MAX_STRING_LENGTH r2) = take MAX_STRING_LENGTH r \<and>
            (\<exists>n\<ge>2. ht_count ?table (c_str (take MAX_STRING_LENGTH r)) = Some n)"
    if h: "rest = sp # mid @ r2 @ rest2 \<and> isspace sp \<and> (mid = [] \<or> isspace (last mid)) \<and>
          (\<forall>c\<in>set r2. \<not> isspace c) \<and> (rest2 = [] \<or> isspace (hd rest2)) \<and>
          MAX_STRING_LENGTH < length r \<and> MAX_STRING_LENGTH < length r2 \<and>
          take MAX_STRING_LENGTH r2 = take MAX_STRING_LENGTH r"
  proof -
    let ?P = "take MAX_STRING_LENGTH r"
    from h have tr: "tokens rest = tokens mid @ pieces MAX_STRING_LENGTH r2 @ tokens rest2"
      using tokens_second_run [of sp mid r2 rest2] by simp
    from h have p1: "pieces MAX_STRING_LENGTH r = ?P # pieces MAX_STRING_LENGTH (drop MAX_STRING_LENGTH r)"
      using pieces_long [OF m, of r] by simp
    from h have p2: "pieces MAX_STRING_LENGTH r2 = ?P # pieces MAX_STRING_LENGTH (drop MAX_STRING_LENGTH r2)"
      using pieces_long [OF m, of r2] by simp
    have "2 \<le> count_list (map c_str ?toks) (c_str ?P)"
      by (subst tr, subst p1, subst p2) simp
    moreover have "c_str ?P \<in> c_str ` set ?toks"
      by (subst p1) simp
    ultimately have "\<exists>n\<ge>2. ht_count ?table (c_str ?P) = Some n"
      using c by simp
    with tr p1 p2 show ?thesis by simp
  qed
  from s have s': "rest = sp # mid @ r2 @ rest2 \<and> isspace sp \<and> (mid = [] \<or> isspace (last mid)) \<and>
          (\<forall>c\<in>set r2. \<not> isspace c) \<and> (rest2 = [] \<or> isspace (hd rest2)) \<and>
          MAX_STRING_LENGTH < length r \<and> MAX_STRING_LENGTH < length r2 \<and>
          take MAX_STRING_LENGTH r2 = take MAX_STRING_LENGTH r \<longrightarrow>
            tokens rest = tokens mid @ pieces MAX_STRING_LENGTH r2 @ tokens rest2 \<and>
            hd (pieces MAX_STRING_LENGTH r) = take MAX_STRING_LENGTH r \<and>
            hd (pieces MAX_STRING_LENGTH r2) = take MAX_STRING_LENGTH r \<and>
            (\<exists>n\<ge>2. ht_count ?table (c_str (take MAX_STRING_LENGTH r)) = Some n)"
    by (rule impI)
  from t concat_pieces [OF m, of r] b f length_pieces [OF m, of r] two i c s'
  show ?thesis by (intro conjI)
qed

lemma pieces_one_over:
  assumes "length A = MAX_STRING_LENGTH"
  shows "pieces MAX_STRING_LENGTH (A @ [c]) = [A, [c]]"
proof -
  have "pieces MAX_STRING_LENGTH (A @ [c]) =
          take MAX_STRING_LENGTH (A @ [c]) # pieces MAX_STRING_LENGTH (drop MAX_STRING_LENGTH (A @ [c]))"
    by (rule pieces_long) (simp_all add: assms MAX_STRING_LENGTH_def)
  moreover have "pieces MAX_STRING_LENGTH [c] = [[c]]"
    by (rule pieces_short) (simp_all add: MAX_STRING_LENGTH_def)
  ultimately show ?thesis
    by (simp add: assms)
qed

lemma tokens_two_long_runs:
  assumes "length A = MAX_STRING_LENGTH" and "\<forall>c\<in>set A. \<not> isspace c"
    and "\<not> isspace b" and "\<not> isspace c" and "isspace sp"
  shows "tokens (A @ [b, sp] @ A @ [c]) = [A, [b], A, [c]]"
proof -
  have "tokens ([] @ (A @ [b]) @ (sp # A @ [c])) =
          tokens [] @ pieces MAX_STRING_LENGTH (A @ [b]) @ tokens (sp # A @ [c])"
    by (rule tokens_delimited_run) (simp_all add: assms)
  moreover have "tokens (sp # A @ [c]) = tokens (A @ [c])"
    by (rule tokens_space) (rule assms(5))
  moreover have "tokens ([] @ (A @ [c]) @ []) =
          tokens [] @ pieces MAX_STRING_LENGTH (A @ [c]) @ tokens []"
    by (rule tokens_delimited_run) (simp_all add: assms)
  ultimately show ?thesis
    by (simp add: pieces_one_over [OF assms(1)] tokens_Nil)
qed

lemma two_long_runs_counted:
  assumes "length A = MAX_STRING_LENGTH" and "\<forall>c\<in>set A. \<not> isspace c" and "0 \<notin> set A"
    and "\<not> isspace b" and "\<not> isspace c" and "isspace sp" and "b \<noteq> 0" and "c \<noteq> 0" and "b \<noteq> c"
  shows "fst (snd (count_loop sg verbose (inithashtable, 0, lg) (A @ [b, sp] @ A @ [c]))) = 4"
    and "length (vocab_of sg (A @ [b, sp] @ A @ [c])) = 3"
proof -
  note t = tokens_two_long_runs [OF assms(1,2,4,5,6)]
  show "fst (snd (count_loop sg verbose (inithashtable, 0, lg) (A @ [b, sp] @ A @ [c]))) = 4"
    by (simp only: count_loop_i t) simp
  have a: "c_str A = A" by (rule c_str_id [OF assms(3)])
  from assms(1) have "length A \<noteq> length [x]" for x :: cchar
    by (simp add: MAX_STRING_LENGTH_def)
  then have n: "A \<noteq> [x]" for x :: cchar by metis
  have "c_str ` set [A, [b], A, [c]] = {A, [b], [c]}"
    using assms(7,8) by (auto simp: a c_str_Cons c_str_Nil)
  moreover have "card {A, [b], [c]} = 3"
    using n [of b] n [of c] assms(9) by simp
  ultimately show "length (vocab_of sg (A @ [b, sp] @ A @ [c])) = 3"
    by (simp only: vocab_of_length t)
qed

lemma pieces_replicate:
  assumes "0 < n"
  shows "pieces n (replicate (k * n) c) = replicate k (replicate n c)"
proof (induction k)
  case 0
  then show ?case by (simp add: pieces_Nil)
next
  case (Suc k)
  show ?case
  proof (cases "k = 0")
    case True
    with assms show ?thesis by (simp add: pieces_short)
  next
    case False
    with assms have "n < length (replicate (Suc k * n) c)" by simp
    from pieces_long [OF assms this] Suc.IH show ?thesis by simp
  qed
qed

theorem long_runs_are_split_witness:
  "list_all (\<lambda>c. \<not> isspace c) (replicate 1000 97 @ [98]) \<and>
   list_all (\<lambda>c. \<not> isspace c) (replicate 1000 97 @ [99]) \<and>
   isspace 32 \<and>
   tokens (replicate 1000 97 @ [98] @ 32 # replicate 1000 97 @ [99]) =
     [replicate 1000 97, [98], replicate 1000 97, [99]] \<and>
   fst (snd (count_loop True 0 (inithashtable, 0, [])
              (replicate 1000 97 @ [98] @ 32 # replicate 1000 97 @ [99]))) = 4 \<and>
   ht_count (fst (count_loop True 0 (inithashtable, 0, [])
              (replicate 1000 97 @ [98] @ 32 # replicate 1000 97 @ [99]))) (replicate 1000 97)
     = Some 2 \<and>
   ht_count (fst (count_loop True 0 (inithashtable, 0, [])
              (replicate 1000 97 @ [98] @ 32 # replicate 1000 97 @ [99]))) [98] = Some 1 \<and>
   tokens (replicate (2 * MAX_STRING_LENGTH) 97 @ 32 # replicate (3 * MAX_STRING_LENGTH) 97) =
     replicate 5 (replicate MAX_STRING_LENGTH 97) \<and>
   ht_count (fst (count_loop True 0 (inithashtable, 0, [])
              (replicate (2 * MAX_STRING_LENGTH) 97 @ 32 # replicate (3 * MAX_STRING_LENGTH) 97)))
     (replicate MAX_STRING_LENGTH 97) = Some 5"
proof -
  let ?A = "replicate 1000 (97 :: cchar)"
  let ?c1 = "?A @ [98] @ 32 # ?A @ [99]"
  have la: "length ?A = MAX_STRING_LENGTH" by (simp add: MAX_STRING_LENGTH_def)
  have h1: "\<forall>c\<in>set (?A @ [98]). \<not> isspace c" and h2: "\<forall>c\<in>set (?A @ [99]). \<not> isspace c"
    and sp: "isspace 32"
    by (simp_all add: isspace_def)
  have a: "c_str ?A = ?A" by (rule c_str_id) simp
  have "length ?A \<noteq> length [x]" for x :: cchar by simp
  then have n: "?A \<noteq> [x]" "[x] \<noteq> ?A" for x :: cchar by metis+
  have e2: "([] :: cchar list) = [] \<or> isspace (last [])" by simp
  have e3: "32 # ?A @ [99] = [] \<or> isspace (hd (32 # ?A @ [99]))" using sp by simp
  note t = long_runs_are_split [OF h1 e2 e3,
      where sg = True and verbose = 0 and lg = "[]" and sp = 32 and mid = "[]"
        and ?r2.0 = "?A @ [99]" and ?rest2.0 = "[]"]
  note p = pieces_one_over [OF la]
  have tk: "tokens (32 # ?A @ [99]) = [?A, [99]]"
    using tokens_second_run [OF sp _ h2, of "[]" "[]"] by (simp add: p tokens_Nil)
  have four: "tokens [] @ [?A, [98]] @ [?A, [99]] = [?A, [98], ?A, [99]]"
    by (simp add: tokens_Nil)
  note t1 = t [THEN conjunct1]
  have 1: "tokens ([] @ (?A @ [98]) @ 32 # ?A @ [99]) = [?A, [98], ?A, [99]]"
    using t1 unfolding p tk four .
  have 2: "fst (snd (count_loop True 0 (inithashtable, 0, []) ([] @ (?A @ [98]) @ 32 # ?A @ [99]))) = 4"
    by (simp only: count_loop_i 1) simp
  note t8 = t [THEN conjunct2, THEN conjunct2, THEN conjunct2, THEN conjunct2, THEN conjunct2,
      THEN conjunct2, THEN conjunct2, THEN conjunct1, rule_format]
  have "ht_count (fst (count_loop True 0 (inithashtable, 0, []) ([] @ (?A @ [98]) @ 32 # ?A @ [99]))) k =
      (if k \<in> c_str ` set [?A, [98], ?A, [99]]
       then Some (int (count_list (map c_str [?A, [98], ?A, [99]]) k)) else None)" for k
    using t8 [of k] unfolding p tk four .
  then have 3: "ht_count (fst (count_loop True 0 (inithashtable, 0, []) ([] @ (?A @ [98]) @ 32 # ?A @ [99]))) ?A = Some 2"
    and 4: "ht_count (fst (count_loop True 0 (inithashtable, 0, []) ([] @ (?A @ [98]) @ 32 # ?A @ [99]))) [98] = Some 1"
    by (simp_all add: a n c_str_Cons c_str_Nil)
  let ?B = "replicate MAX_STRING_LENGTH (97 :: cchar)"
  let ?r2 = "replicate (2 * MAX_STRING_LENGTH) (97 :: cchar)"
  let ?r3 = "replicate (3 * MAX_STRING_LENGTH) (97 :: cchar)"
  have m: "0 < MAX_STRING_LENGTH" by (simp add: MAX_STRING_LENGTH_def)
  have g: "\<forall>c\<in>set ?r2. \<not> isspace c" "\<forall>c\<in>set ?r3. \<not> isspace c"
    by (simp_all add: isspace_def)
  have q2: "([] :: cchar list) = [] \<or> isspace (last [])" by simp
  have q3: "32 # ?r3 = [] \<or> isspace (hd (32 # ?r3))" using sp by simp
  note u = long_runs_are_split [OF g(1) q2 q3,
      where sg = True and verbose = 0 and lg = "[]" and sp = 32 and mid = "[]" and ?r2.0 = ?r3
        and ?rest2.0 = "[]"]
  have tk3: "tokens (32 # ?r3) = replicate 3 ?B"
    using tokens_second_run [OF sp _ g(2), of "[]" "[]"]
    by (simp add: pieces_replicate [OF m] tokens_Nil)
  have b: "c_str ?B = ?B" by (rule c_str_id) simp
  have five: "tokens [] @ replicate 2 ?B @ replicate 3 ?B = replicate 5 ?B"
    by (simp add: tokens_Nil numeral_eq_Suc)
  have "tokens ([] @ ?r2 @ 32 # ?r3) = tokens [] @ pieces MAX_STRING_LENGTH ?r2 @ tokens (32 # ?r3)"
    using u by simp
  then have 5: "tokens ([] @ ?r2 @ 32 # ?r3) = replicate 5 ?B"
    unfolding pieces_replicate [OF m] tk3 five .
  note u7 = u [THEN conjunct2, THEN conjunct2, THEN conjunct2, THEN conjunct2, THEN conjunct2,
      THEN conjunct2, THEN conjunct2, THEN conjunct1, rule_format, of ?B]
  have "ht_count (fst (count_loop True 0 (inithashtable, 0, []) ([] @ ?r2 @ 32 # ?r3))) ?B =
      (if ?B \<in> c_str ` set (replicate 5 ?B)
       then Some (int (count_list (map c_str (replicate 5 ?B)) ?B)) else None)"
    using u7 unfolding pieces_replicate [OF m] tk3 five .
  then have 6: "ht_count (fst (count_loop True 0 (inithashtable, 0, []) ([] @ ?r2 @ 32 # ?r3))) ?B = Some 5"
    by (simp add: b numeral_eq_Suc)
  from h1 h2 sp 1 2 3 4 5 6 show ?thesis
    by (simp add: list_all_iff)
qed

text \<open>
  The claim as it is written fails: of two runs of 1001 bytes that share their first 1000
  bytes, \<open>get_counts\<close> reads four tokens, not two, and the table ends with three words,
  not one.
\<close>

theorem truncation_counterexample:
  "tokens (replicate 1000 97 @ [98, 32] @ replicate 1000 97 @ [99]) =
     [replicate 1000 97, [98], replicate 1000 97, [99]] \<and>
   fst (snd (count_loop True 0 (inithashtable, 0, [])
              (replicate 1000 97 @ [98, 32] @ replicate 1000 97 @ [99]))) = 4 \<and>
   length (vocab_of True (replicate 1000 97 @ [98, 32] @ replicate 1000 97 @ [99])) = 3"
proof -
  let ?A = "replicate 1000 (97 :: cchar)"
  have 1: "length ?A = MAX_STRING_LENGTH" by (simp add: MAX_STRING_LENGTH_def)
  have 2: "\<forall>c\<in>set ?A. \<not> isspace c" by (simp add: isspace_def)
  have 3: "0 \<notin> set ?A" by simp
  have 4: "\<not> isspace 98" "\<not> isspace 99" "isspace 32" by (simp_all add: isspace_def)
  have 5: "(98 :: cchar) \<noteq> 0" "(99 :: cchar) \<noteq> 0" "(98 :: cchar) \<noteq> 99" by simp_all
  from tokens_two_long_runs [OF 1 2 4]
    two_long_runs_counted(1) [OF 1 2 3 4 5, of True 0 "[]"]
    two_long_runs_counted(2) [OF 1 2 3 4 5, of True]
  show ?thesis by (intro conjI)
qed

section \<open>The order of the output\<close>

lemma CompareVocabTie_eq_0_iff:
  "CompareVocabTie sg a b = 0 \<longleftrightarrow> vcount a = vcount b \<and> c_str (word a) = c_str (word b)"
  by (auto simp: CompareVocabTie_def Let_def scmp_eq_0_iff)

lemma sorted_wrt_strict:
  assumes "sorted_wrt (\<lambda>a b. CompareVocabTie sg a b \<le> 0) xs" and "distinct (map word xs)"
    and "\<forall>v\<in>set xs. 0 \<notin> set (word v)"
  shows "sorted_wrt (\<lambda>a b. CompareVocabTie sg a b < 0) xs"
  using assms
proof (induction xs)
  case Nil
  then show ?case by simp
next
  case (Cons x xs)
  have "CompareVocabTie sg x y < 0" if "y \<in> set xs" for y
  proof -
    from Cons.prems(1) that have "CompareVocabTie sg x y \<le> 0" by simp
    moreover from Cons.prems(2) that have "word x \<noteq> word y" by auto
    then have "c_str (word x) \<noteq> c_str (word y)"
      using Cons.prems(3) that by (simp add: c_str_id)
    then have "CompareVocabTie sg x y \<noteq> 0" by (simp add: CompareVocabTie_eq_0_iff)
    ultimately show ?thesis by simp
  qed
  with Cons show ?case by simp
qed

lemma sorted_wrt_takeWhile: "sorted_wrt R xs \<Longrightarrow> sorted_wrt R (takeWhile P xs)"
  by (induction xs) (auto dest: set_takeWhileD)

text \<open>With a \<open>qsort\<close> that keeps its contract, the entries come out in strictly ascending
  order of \<open>CompareVocabTie\<close>: by falling count and, for equal counts, by \<open>scmp\<close>.\<close>

lemma emitted_sorted:
  assumes "qsort_contract qs"
  shows "sorted_wrt (\<lambda>a b. CompareVocabTie sg a b < 0)
           (emitted qs sg verbose max_vocab min_count corpus)"
proof -
  let ?r = "take (nat (cutoff max_vocab (int (length (vocab_of sg corpus)))))
              (fst (rank_vocab qs sg max_vocab (vocab_of sg corpus)))"
  have "\<forall>v\<in>set ?r. 0 \<notin> set (word v)"
    using ranked_subset [OF assms, of max_vocab "vocab_of sg corpus" sg]
    by (auto dest: vocab_of_entry(1))
  with ranked_sorted [OF assms, where sg = sg and max_vocab = max_vocab and vocab = "vocab_of sg corpus"]
    ranked_distinct [OF assms vocab_of_distinct, where sg = sg and max_vocab = max_vocab]
  have "sorted_wrt (\<lambda>a b. CompareVocabTie sg a b < 0) ?r"
    by (rule sorted_wrt_strict)
  then show ?thesis
    unfolding emitted_eq by (rule sorted_wrt_takeWhile)
qed

text \<open>Where \<open>char\<close> values are the byte values, which is so for every byte when \<open>char\<close> is
  unsigned and for bytes below 128 when it is signed, the order of \<open>scmp\<close> on C strings is
  the byte-wise lexicographic order.\<close>

lemma char_int_unsigned: "char_int False c = uint c"
  by (simp add: char_int_def)

lemma char_int_ascii:
  assumes "c < 128"
  shows "char_int sg c = uint c"
proof -
  from assms have "uint c < 128" by (simp add: word_less_def)
  moreover have "- (2 ^ 7) \<le> uint c"
    by (rule order_trans [of _ 0]) simp_all
  ultimately have "signed_take_bit 7 (uint c) = uint c"
    by (intro signed_take_bit_int_eq_self) simp_all
  then show ?thesis by (simp add: char_int_def sint_uint)
qed

lemma scmp_key_bytewise:
  assumes "\<forall>c\<in>set s \<union> set t. char_int sg c = uint c" and "0 \<notin> set s" and "0 \<notin> set t"
  shows "scmp_key sg s < scmp_key sg t \<longleftrightarrow> token_less s t"
  using assms
proof (induction s arbitrary: t)
  case Nil
  then show ?case
  proof (cases t)
    case Nil
    then show ?thesis by (simp add: scmp_key_Nil token_less_def)
  next
    case (Cons b t')
    with Nil.prems have "uint b \<noteq> 0" by (auto simp: uint_0_iff)
    then have "0 < uint b" using uint_ge_0 [of b] by linarith
    with Cons Nil.prems show ?thesis
      by (simp add: scmp_key_Nil scmp_key_Cons token_less_def)
  qed
next
  case (Cons a s)
  show ?case
  proof (cases t)
    case Nil
    with Cons.prems show ?thesis
      by (auto simp: scmp_key_Nil scmp_key_Cons token_less_def)
  next
    case (Cons b t')
    with Cons.prems Cons.IH [of t'] show ?thesis
      by (auto simp: scmp_key_Cons token_less_def word_less_def word_uint_eq_iff)
  qed
qed

lemma tokens_bytes: "t \<in> set (tokens fid) \<Longrightarrow> set t \<subseteq> set fid"
proof (induction fid arbitrary: t rule: tokens.induct)
  case (1 fid)
  show ?case
  proof (cases "fscanf_s MAX_STRING_LENGTH fid")
    case None
    with "1.prems" show ?thesis by (simp add: tokens_None)
  next
    case (Some p)
    obtain str fid' where p: "p = (str, fid')" by (cases p)
    let ?d = "dropWhile isspace fid"
    from Some p have s: "str = take MAX_STRING_LENGTH (takeWhile (\<lambda>c. \<not> isspace c) ?d)"
      and f: "fid' = drop (length str) ?d"
      unfolding fscanf_s_def Let_def
      by (auto split: if_splits simp del: dropWhile_eq_Nil_conv length_take)
    have d: "set ?d \<subseteq> set fid" by (auto dest: set_dropWhileD)
    from s have "set str \<subseteq> set ?d" by (auto dest: in_set_takeD set_takeWhileD)
    moreover from f have "set fid' \<subseteq> set ?d" by (auto dest: in_set_dropD)
    moreover from "1.prems" Some p have "t = str \<or> t \<in> set (tokens fid')"
      by (simp add: tokens_Some)
    ultimately show ?thesis
      using "1.IH" [OF Some p [symmetric]] d by blast
  qed
qed

lemma c_str_bytes: "set (c_str s) \<subseteq> set s"
  by (auto simp: c_str_def dest: set_takeWhileD)

lemma vocab_of_bytes:
  assumes "v \<in> set (vocab_of sg corpus)"
  shows "set (word v) \<subseteq> set corpus"
proof -
  from assms have "word v \<in> set (map word (vocab_of sg corpus))" by simp
  then obtain t where "t \<in> set (tokens corpus)" and "word v = c_str t"
    unfolding vocab_of_words by blast
  then show ?thesis using tokens_bytes [of t corpus] c_str_bytes [of t] by auto
qed

text \<open>So the output is in the order the specification names when \<open>char\<close> is unsigned, and
  on any platform when the corpus has no byte above 127.\<close>

lemma emitted_bytewise_order:
  assumes "qsort_contract qs" and "\<not> sg \<or> (\<forall>c\<in>set corpus. c < 128)"
  shows "sorted_wrt ranked_before (emitted qs sg verbose max_vocab min_count corpus)"
proof -
  let ?out = "emitted qs sg verbose max_vocab min_count corpus"
  have sub: "set ?out \<subseteq> set (vocab_of sg corpus)"
    unfolding emitted_eq
    using ranked_subset [OF assms(1), of max_vocab "vocab_of sg corpus" sg]
    by (auto dest: set_takeWhileD)
  have ci: "char_int sg c = uint c" if "c \<in> set corpus" for c
    using assms(2) that by (auto simp: char_int_unsigned char_int_ascii)
  have "ranked_before a b"
    if "a \<in> set ?out" and "b \<in> set ?out" and "CompareVocabTie sg a b < 0" for a b
  proof -
    from that(1,2) sub have a: "a \<in> set (vocab_of sg corpus)" and b: "b \<in> set (vocab_of sg corpus)"
      by auto
    have "\<forall>c\<in>set (word a) \<union> set (word b). char_int sg c = uint c"
      using vocab_of_bytes [OF a] vocab_of_bytes [OF b] ci by auto
    from scmp_key_bytewise [OF this vocab_of_entry(1) [OF a] vocab_of_entry(1) [OF b]]
    have "scmp_key sg (c_str (word a)) < scmp_key sg (c_str (word b)) \<longleftrightarrow>
            token_less (word a) (word b)"
      by (simp add: c_str_id vocab_of_entry(1) [OF a] vocab_of_entry(1) [OF b])
    with that(3) show ?thesis
      by (auto simp: ranked_before_def CompareVocabTie_less_iff scmp_key_def c_str_idem)
  qed
  with emitted_sorted [OF assms(1), of sg verbose max_vocab min_count corpus]
  show ?thesis by (rule sorted_wrt_mono_rel [rotated])
qed

section \<open>The tie-break where char is signed\<close>

lemma emitted_unlimited:
  assumes "qsort_contract qs"
  shows "emitted qs sg verbose 0 min_count corpus =
           takeWhile (\<lambda>v. \<not> vcount v < min_count) (qs (CompareVocabTie sg) (vocab_of sg corpus))"
proof -
  have c: "cutoff 0 (int (length (vocab_of sg corpus))) = int (length (vocab_of sg corpus))"
    by (simp add: cutoff_def)
  show ?thesis
    unfolding emitted_eq ranked_prefix [OF assms]
    by (simp add: c presort_fst)
qed

lemma vocab_of_mset:
  "mset (vocab_of sg corpus) =
     mset (map (\<lambda>(w, c). \<lparr>word = w, vcount = c\<rparr>) (observe_all (tokens corpus)))"
proof -
  let ?g = "\<lambda>(w, c). \<lparr>word = w, vcount = c\<rparr>"
  let ?f = "\<lambda>v. (word v, vcount v)"
  have eta: "\<lparr>word = word v, vcount = vcount v\<rparr> = v" for v :: VOCAB
    by (cases v) simp
  have m: "map ?g (map ?f (vocab_of sg corpus)) = vocab_of sg corpus"
    by (simp add: comp_def eta)
  have "mset (vocab_of sg corpus) = mset (map ?g (map ?f (vocab_of sg corpus)))"
    by (simp only: m)
  also have "\<dots> = image_mset ?g (mset (map ?f (vocab_of sg corpus)))"
    by (rule mset_map)
  also have "\<dots> = image_mset ?g (mset (observe_all (tokens corpus)))"
    by (simp only: vocab_of_pairs)
  also have "\<dots> = mset (map ?g (observe_all (tokens corpus)))"
    by (rule mset_map [symmetric])
  finally show ?thesis .
qed

lemma sorted_two:
  assumes "mset xs = {#a, b#}" and "sorted_wrt R xs" and "\<not> R a b"
  shows "xs = [b, a]"
proof -
  from assms(1) have "length xs = 2" by (metis size_mset size_add_mset size_empty numeral_2_eq_2)
  then obtain x y where xs: "xs = [x, y]"
    by (cases xs; cases "tl xs") auto
  with assms(1) have "x = a \<and> y = b \<or> x = b \<and> y = a"
    by (auto simp: add_eq_conv_ex)
  with assms(2,3) xs show ?thesis by auto
qed

lemma tokens_a_ae: "tokens [97, 32, 97, 195, 169] = [[97], [97, 195, 169]]"
proof -
  have "tokens ([97] @ [32, 97, 195, 169]) = [97] # tokens [32, 97, 195, 169]"
    by (rule tokens_word) (simp_all add: isspace_def MAX_STRING_LENGTH_def)
  moreover have "tokens (32 # [97, 195, 169]) = tokens [97, 195, 169]"
    by (rule tokens_space) (simp add: isspace_def)
  moreover have "tokens ([97, 195, 169] @ []) = [97, 195, 169] # tokens []"
    by (rule tokens_word) (simp_all add: isspace_def MAX_STRING_LENGTH_def)
  ultimately show ?thesis by (simp add: tokens_Nil)
qed

text \<open>Where \<open>char\<close> is signed, a token that continues with a byte above 127 is ranked
  before its own prefix, by any \<open>qsort\<close> that keeps its contract.\<close>

lemma emitted_a_ae:
  assumes "qsort_contract qs"
  shows "emitted qs True verbose 0 1 [97, 32, 97, 195, 169] =
           [\<lparr>word = [97, 195, 169], vcount = 1\<rparr>, \<lparr>word = [97], vcount = 1\<rparr>]"
proof -
  let ?corpus = "[97, 32, 97, 195, 169] :: cchar list"
  let ?a = "\<lparr>word = [97], vcount = 1\<rparr>"
  let ?ae = "\<lparr>word = [97, 195, 169], vcount = 1\<rparr>"
  let ?s = "qs (CompareVocabTie True) (vocab_of True ?corpus)"
  have "mset (vocab_of True ?corpus) = {#?a, ?ae#}"
    by (simp add: vocab_of_mset tokens_a_ae observe_all_def c_str_Cons c_str_Nil)
  then have "mset ?s = {#?a, ?ae#}"
    by (simp add: qsort_contract_mset [OF assms consistent_CompareVocabTie])
  moreover have "sorted_wrt (\<lambda>a b. CompareVocabTie True a b \<le> 0) ?s"
    by (rule qsort_contract_sorted [OF assms consistent_CompareVocabTie])
  moreover have "\<not> CompareVocabTie True ?a ?ae \<le> 0"
    by (simp add: CompareVocabTie_def char_int_def)
  ultimately have "?s = [?ae, ?a]" by (rule sorted_two)
  then show ?thesis by (simp add: emitted_unlimited [OF assms])
qed

text \<open>
  Claim C1 (sort invariant), at an input where it fails. On a platform whose \<open>char\<close> is
  signed, the corpus of the bytes 97, 32, 97, 195, 169 (the token \<open>a\<close>, a space, and
  \<open>a\<close> followed by the two bytes of an accented letter in UTF-8) gives two entries of
  count 1, and the longer token is printed before \<open>a\<close>, although \<open>a\<close> is a proper
  prefix of it and so the smaller token in byte-wise lexicographic order: the first pair
  of the output is not in the order the claim states.
\<close>

theorem tie_break_signed_char:
  "emitted insertion_qsort True 0 0 1 [97, 32, 97, 195, 169] =
     [\<lparr>word = [97, 195, 169], vcount = 1\<rparr>, \<lparr>word = [97], vcount = 1\<rparr>] \<and>
   \<not> ranked_before \<lparr>word = [97, 195, 169], vcount = 1\<rparr> \<lparr>word = [97], vcount = 1\<rparr> \<and>
   scmp True [97, 195, 169] [97] = - 61 \<and>
   token_less [97] [97, 195, 169]"
  by (simp add: emitted_a_ae [OF insertion_qsort_contract] ranked_before_def token_less_def
      char_int_def)

end
